theory Spec2Isabelle
  imports Complex_Main "HOL-Library.Char_ord" "HOL-Library.List_Lexorder" "HOL-Library.Multiset"
begin

section \<open>Strings, paths and the standard-library functions the program calls\<close>

text \<open>
  A Python \<open>str\<close> is modelled as a \<open>string\<close> (a list of characters with code points
  below 256). Comparison of strings and of lists of strings is lexicographic by code point,
  as in Python. Exceptions are values: a function that can raise returns \<open>exn + 'a\<close>.
\<close>

datatype exn =
    ValueError | TypeError | AttributeError | OSError
  | JSONDecodeError | TransportError | TimeoutException | TinyTagException

definition LF :: char where "LF = CHR 0x0A"
definition CR :: char where "CR = CHR 0x0D"

text \<open>\<open>str.split(sep)\<close> for a one-character separator: every separator cuts, empty pieces are kept.\<close>

fun split_sep :: "char \<Rightarrow> string \<Rightarrow> string list" where
  "split_sep sep [] = [[]]"
| "split_sep sep (c # cs) =
     (if c = sep then [] # split_sep sep cs
      else (case split_sep sep cs of [] \<Rightarrow> [[c]] | p # ps \<Rightarrow> (c # p) # ps))"

text \<open>\<open>sep.join(parts)\<close>.\<close>

fun join :: "string \<Rightarrow> string list \<Rightarrow> string" where
  "join sep [] = []"
| "join sep [p] = p"
| "join sep (p # q # ps) = p @ sep @ join sep (q # ps)"

text \<open>
  The loop of \<open>posixpath.commonpath\<close> that cuts \<open>s1\<close> at the first component where it
  differs from \<open>s2\<close>. Python reads \<open>s2[i]\<close>, which cannot be out of range there because
  \<open>s1 = min(split_paths)\<close> and \<open>s2 = max(split_paths)\<close>; the second equation covers the
  remaining patterns.
\<close>

fun common_prefix :: "'a list \<Rightarrow> 'a list \<Rightarrow> 'a list" where
  "common_prefix (x # xs) (y # ys) = (if x = y then x # common_prefix xs ys else [])"
| "common_prefix xs ys = []"

text \<open>
  \<open>os.path.commonpath\<close> as \<open>posixpath\<close> implements it: the paths are split at \<open>/\<close>,
  empty components and \<open>.\<close> are dropped, the common leading components of the smallest
  and the largest component list are joined again, with a leading \<open>/\<close> when the paths
  are absolute. An empty sequence, or a mix of absolute and relative paths, raises
  \<open>ValueError\<close>.
\<close>

definition commonpath :: "string list \<Rightarrow> exn + string" where
  "commonpath paths =
     (if paths = [] then Inl ValueError
      else
        let split_paths = map (split_sep CHR ''/'') paths;
            isabs = remdups (map (\<lambda>p. take 1 p = ''/'') paths)
        in if length isabs \<noteq> 1 then Inl ValueError
           else
             let split_paths = map (filter (\<lambda>c. c \<noteq> [] \<and> c \<noteq> ''.'')) split_paths;
                 s1 = fold min (tl split_paths) (hd split_paths);
                 s2 = fold max (tl split_paths) (hd split_paths);
                 common = common_prefix s1 s2;
                 prefix = (if hd isabs then ''/'' else [])
             in Inr (prefix @ join ''/'' common))"

text \<open>\<open>str.rfind(c)\<close> for a one-character needle: the last index of \<open>c\<close>, or \<open>-1\<close>.\<close>

definition rfind :: "char \<Rightarrow> string \<Rightarrow> int" where
  "rfind c s =
     (if c \<in> set s then int (length s) - 1 - int (length (takeWhile (\<lambda>x. x \<noteq> c) (rev s)))
      else - 1)"

text \<open>
  \<open>os.path.splitext\<close> (\<open>genericpath._splitext\<close> with \<open>sep = '/'\<close>, \<open>extsep = '.'\<close>): the
  extension starts at the last dot of the last component, unless that component consists
  of leading dots only up to there.
\<close>

definition splitext :: "string \<Rightarrow> string \<times> string" where
  "splitext p =
     (let sepIndex = rfind CHR ''/'' p;
          dotIndex = rfind CHR ''.'' p
      in if dotIndex > sepIndex
            \<and> filter (\<lambda>c. c \<noteq> CHR ''.'')
                 (take (nat (dotIndex - (sepIndex + 1))) (drop (nat (sepIndex + 1)) p)) \<noteq> []
         then (take (nat dotIndex) p, drop (nat dotIndex) p)
         else (p, []))"

text \<open>\<open>str.endswith(suffix)\<close> and its tuple form.\<close>

definition endswith :: "string \<Rightarrow> string \<Rightarrow> bool" where
  "endswith s suffix = (length suffix \<le> length s \<and> drop (length s - length suffix) s = suffix)"

definition endswith_any :: "string \<Rightarrow> string list \<Rightarrow> bool" where
  "endswith_any s suffixes = list_ex (endswith s) suffixes"

text \<open>\<open>os.path.join(a, b)\<close> of \<open>posixpath\<close> for two arguments.\<close>

definition path_join :: "string \<Rightarrow> string \<Rightarrow> string" where
  "path_join a b =
     (if take 1 b = ''/'' then b
      else if a = [] \<or> endswith a ''/'' then a @ b
      else a @ ''/'' @ b)"

text \<open>
  \<open>str.isspace\<close> on one character, for code points below 256, and \<open>str.strip()\<close>.
\<close>

definition isspace :: "char \<Rightarrow> bool" where
  "isspace c = ((of_char c :: nat) \<in> {9, 10, 11, 12, 13, 28, 29, 30, 31, 32, 133, 160})"

definition strip :: "string \<Rightarrow> string" where
  "strip s = rev (dropWhile isspace (rev (dropWhile isspace s)))"

section \<open>The environment of a run\<close>

text \<open>
  What the tag reader returns for a file: \<open>TinyTag\<close> attributes are \<open>None\<close> when the tag
  is absent, and the duration is a number of seconds.
\<close>

record audio =
  album :: "string option"
  title :: "string option"
  artist :: "string option"
  duration :: "rat option"

text \<open>A parsed JSON value; \<open>JNull\<close> is Python's \<open>None\<close>, \<open>JObj\<close> holds the items of a dict.\<close>

datatype json =
    JNull | JBool bool | JNum rat | JStr string
  | JArr "json list" | JObj "(string \<times> json) list"

text \<open>An HTTP response: its status code and what \<open>r.json()\<close> gives (it raises on a body that is not JSON).\<close>

record response =
  status_code :: int
  json_body :: "exn + json"

text \<open>The query parameters of one lookup: artist, title, album, duration.\<close>

type_synonym params = "string option \<times> string option \<times> string option \<times> int"

text \<open>The file \<open>lyrics_cache.txt\<close>: absent, present but failing to open or decode, or a text.\<close>

datatype cache_file = Absent | Unreadable exn | Readable string

text \<open>
  Everything outside the program: the file system (\<open>os.path.isdir\<close>, \<open>os.path.exists\<close>,
  what \<open>os.walk\<close> yields as pairs of a directory and its file names, whether a file can be
  opened for writing and written), the cache file and the exception, if any, that opening
  it for writing or writing it raises, the tag reader and the lookup service (\<open>Inl\<close> is
  an exception raised by \<open>client.get\<close>: a transport error or a timeout).
\<close>

record world =
  isdir :: "string \<Rightarrow> bool"
  exists :: "string \<Rightarrow> bool"
  walk :: "(string \<times> string list) list"
  open_w :: "string \<Rightarrow> exn option"
  write_text :: "string \<Rightarrow> exn option"
  cache_file :: cache_file
  cache_save_error :: "exn option"
  tinytag_get :: "string \<Rightarrow> exn + audio"
  client_get :: "params \<Rightarrow> exn + response"

definition MAX_CONCURRENCY :: nat where "MAX_CONCURRENCY = 20"

section \<open>Cache store\<close>

text \<open>
  Reading a text file with universal newlines: \<open>\r\n\<close> and \<open>\r\<close> become \<open>\n\<close>; iterating
  the file yields the lines, each with its line end.
\<close>

fun universal_newlines :: "string \<Rightarrow> string" where
  "universal_newlines [] = []"
| "universal_newlines [c] = [if c = CR then LF else c]"
| "universal_newlines (c # d # cs) =
     (if c = CR then
        (if d = LF then LF # universal_newlines cs else LF # universal_newlines (d # cs))
      else c # universal_newlines (d # cs))"

fun readlines :: "string \<Rightarrow> string list" where
  "readlines [] = []"
| "readlines (c # cs) =
     (if c = LF then [c] # readlines cs
      else (case readlines cs of [] \<Rightarrow> [[c]] | l # ls \<Rightarrow> (c # l) # ls))"

definition load_cache :: "cache_file \<Rightarrow> exn + string list" where
  "load_cache f =
     (case f of
        Absent \<Rightarrow> Inr []
      | Unreadable e \<Rightarrow> Inl e
      | Readable text \<Rightarrow>
          Inr (map strip (filter (\<lambda>line. strip line \<noteq> []) (readlines (universal_newlines text)))))"

text \<open>
  \<open>sorted(set(cache))\<close>, the text that \<open>save_cache\<close> writes, and \<open>save_cache\<close>: the
  file is opened for writing and written outside every \<open>try\<close>, so an exception there
  leaves \<open>save_cache\<close>; otherwise the text replaces what the file held.
\<close>

definition sorted_set :: "string list \<Rightarrow> string list" where
  "sorted_set cache = sort (remdups cache)"

definition cache_text :: "string list \<Rightarrow> string" where
  "cache_text cache = concat (map (\<lambda>item. item @ [LF]) (sorted_set cache))"

definition save_cache :: "string list \<Rightarrow> world \<Rightarrow> exn + world" where
  "save_cache cache w =
     (case cache_save_error w of
        Some e \<Rightarrow> Inl e
      | None \<Rightarrow> Inr (w\<lparr>cache_file := Readable (cache_text cache)\<rparr>))"

text \<open>
  \<open>is_in_cache\<close>: the entries are tried in order; a directory entry matches when
  \<open>commonpath\<close> of the path and the entry is the entry string itself, any other entry when
  it equals the path. An exception of \<open>commonpath\<close> is not caught.
\<close>

fun is_in_cache :: "world \<Rightarrow> string \<Rightarrow> string list \<Rightarrow> exn + bool" where
  "is_in_cache w file_path [] = Inr False"
| "is_in_cache w file_path (entry # cache_entries) =
     (if isdir w entry then
        (case commonpath [file_path, entry] of
           Inl e \<Rightarrow> Inl e
         | Inr c \<Rightarrow> if c = entry then Inr True else is_in_cache w file_path cache_entries)
      else if file_path = entry then Inr True
      else is_in_cache w file_path cache_entries)"

section \<open>Lyrics client\<close>

text \<open>Python truthiness of a JSON value, and \<open>not x\<close> for a tag value (\<open>None\<close> or a string).\<close>

fun truthy :: "json \<Rightarrow> bool" where
  "truthy JNull = False"
| "truthy (JBool b) = b"
| "truthy (JNum n) = (n \<noteq> 0)"
| "truthy (JStr s) = (s \<noteq> [])"
| "truthy (JArr xs) = (xs \<noteq> [])"
| "truthy (JObj kvs) = (kvs \<noteq> [])"

fun falsy :: "string option \<Rightarrow> bool" where
  "falsy None = True"
| "falsy (Some s) = (s = [])"

text \<open>\<open>data.get(key)\<close>: \<open>None\<close> for a missing key; \<open>AttributeError\<close> when \<open>data\<close> is not a dict.\<close>

fun dict_get :: "json \<Rightarrow> string \<Rightarrow> exn + json" where
  "dict_get (JObj kvs) key = Inr (case map_of kvs key of None \<Rightarrow> JNull | Some v \<Rightarrow> v)"
| "dict_get data key = Inl AttributeError"

text \<open>
  \<open>get_lyrics\<close>: one request; every exception is caught and gives \<open>None\<close>. In
  \<open>a or b\<close> the second operand is evaluated only when the first is falsy.
\<close>

definition get_lyrics ::
  "world \<Rightarrow> string option \<Rightarrow> string option \<Rightarrow> string option \<Rightarrow> int \<Rightarrow> json option" where
  "get_lyrics w artist' title' album' duration' =
     (case client_get w (artist', title', album', duration') of
        Inl e \<Rightarrow> None
      | Inr r \<Rightarrow>
          if status_code r = 200 then
            (case json_body r of
               Inl e \<Rightarrow> None
             | Inr data \<Rightarrow>
                 (case dict_get data ''syncedLyrics'' of
                    Inl e \<Rightarrow> None
                  | Inr synced \<Rightarrow>
                      if truthy synced then Some synced
                      else
                        (case dict_get data ''plainLyrics'' of
                           Inl e \<Rightarrow> None
                         | Inr lyrics \<Rightarrow> if truthy lyrics then Some lyrics else None)))
          else None)"

section \<open>File processor\<close>

text \<open>\<open>int(x)\<close> on a number truncates towards zero.\<close>

definition py_int :: "rat \<Rightarrow> int" where
  "py_int x = (if 0 \<le> x then \<lfloor>x\<rfloor> else \<lceil>x\<rceil>)"

text \<open>\<open>get_song_details\<close>: \<open>int(None)\<close> raises \<open>TypeError\<close>.\<close>

definition get_song_details ::
  "world \<Rightarrow> string \<Rightarrow> exn + (string option \<times> string option \<times> string option \<times> int)" where
  "get_song_details w file_path =
     (case tinytag_get w file_path of
        Inl e \<Rightarrow> Inl e
      | Inr a \<Rightarrow>
          (case duration a of
             None \<Rightarrow> Inl TypeError
           | Some d \<Rightarrow> Inr (album a, title a, artist a, py_int d)))"

datatype outcome =
    Cached string | AlreadyExists string | Found string | Missing string | Error string exn

text \<open>The input and output actions of \<open>process_file\<close>, in the order performed.\<close>

datatype event =
    Extract string | Lookup params | OpenW string | WriteText string string

definition lrc_path :: "string \<Rightarrow> string" where
  "lrc_path file_path = fst (splitext file_path) @ ''.lrc''"

text \<open>
  The last step of \<open>process_file\<close>: opening the output file creates or truncates it;
  \<open>f.write\<close> of a value that is not a string raises \<open>TypeError\<close>.
\<close>

definition write_lyrics :: "world \<Rightarrow> string \<Rightarrow> string \<Rightarrow> json \<Rightarrow> outcome \<times> event list" where
  "write_lyrics w file_path new_file_path lyrics =
     (case open_w w new_file_path of
        Some e \<Rightarrow> (Error file_path e, [])
      | None \<Rightarrow>
          (case lyrics of
             JStr s \<Rightarrow>
               (case write_text w new_file_path of
                  Some e \<Rightarrow> (Error file_path e, [OpenW new_file_path])
                | None \<Rightarrow> (Found file_path, [OpenW new_file_path, WriteText new_file_path s]))
           | _ \<Rightarrow> (Error file_path TypeError, [OpenW new_file_path])))"

text \<open>
  \<open>process_file\<close>: \<open>Inl\<close> is an exception that leaves the coroutine (only the cache check
  is outside every \<open>try\<close>); otherwise the outcome and the actions performed. The semaphore
  around \<open>get_lyrics\<close> delays the call and does not change its result.
\<close>

definition process_file :: "world \<Rightarrow> string \<Rightarrow> string list \<Rightarrow> exn + (outcome \<times> event list)" where
  "process_file w file_path cache_entries =
     (case is_in_cache w file_path cache_entries of
        Inl e \<Rightarrow> Inl e
      | Inr True \<Rightarrow> Inr (Cached file_path, [])
      | Inr False \<Rightarrow>
          let new_file_path = lrc_path file_path in
          if exists w new_file_path then Inr (AlreadyExists file_path, [])
          else
            (case get_song_details w file_path of
               Inl e \<Rightarrow> Inr (Error file_path e, [Extract file_path])
             | Inr (album', title', artist', duration') \<Rightarrow>
                 if falsy artist' \<or> falsy title'
                 then Inr (Missing file_path, [Extract file_path])
                 else
                   (case get_lyrics w artist' title' album' duration' of
                      None \<Rightarrow>
                        Inr (Missing file_path,
                             [Extract file_path, Lookup (artist', title', album', duration')])
                    | Some lyrics \<Rightarrow>
                        (case write_lyrics w file_path new_file_path lyrics of
                           (res, evs) \<Rightarrow>
                             Inr (res, [Extract file_path,
                                        Lookup (artist', title', album', duration')] @ evs)))))"

section \<open>Run orchestrator\<close>

definition audio_suffixes :: "string list" where
  "audio_suffixes = [''.flac'', ''.mp3'', ''.wav'', ''.ogg'', ''.aac'', ''.wma'']"

definition collect_audio_files :: "(string \<times> string list) list \<Rightarrow> string list" where
  "collect_audio_files tree =
     concat (map (\<lambda>(root, files).
                    map (path_join root) (filter (\<lambda>file. endswith_any file audio_suffixes) files))
                 tree)"

text \<open>The cache list and the two counters that the loop of \<open>main_async\<close> updates.\<close>

record run_state =
  entries :: "string list"
  Found_lyrics :: nat
  Missing_lyrics :: nat

fun consume :: "run_state \<Rightarrow> outcome \<Rightarrow> run_state" where
  "consume st (Cached p) = st"
| "consume st (AlreadyExists p) = st\<lparr>entries := entries st @ [p]\<rparr>"
| "consume st (Found p) = st\<lparr>entries := entries st @ [p], Found_lyrics := Found_lyrics st + 1\<rparr>"
| "consume st (Missing p) = st\<lparr>Missing_lyrics := Missing_lyrics st + 1\<rparr>"
| "consume st (Error p e) = st\<lparr>Missing_lyrics := Missing_lyrics st + 1\<rparr>"

text \<open>What an action leaves behind in the file system: an opened output file exists.\<close>

fun apply_event :: "world \<Rightarrow> event \<Rightarrow> world" where
  "apply_event w (OpenW p) = w\<lparr>exists := (exists w)(p := True)\<rparr>"
| "apply_event w ev = w"

text \<open>Awaiting the tasks: an exception of a task is raised again in \<open>main_async\<close>.\<close>

fun gather :: "(exn + 'a) list \<Rightarrow> exn + 'a list" where
  "gather [] = Inr []"
| "gather (Inl e # rs) = Inl e"
| "gather (Inr x # rs) = (case gather rs of Inl e \<Rightarrow> Inl e | Inr xs \<Rightarrow> Inr (x # xs))"

record run_result =
  final_world :: world
  results :: "(outcome \<times> event list) list"
  final_state :: run_state
  total_files :: nat

text \<open>
  \<open>main_async\<close>. Every task runs its cache check and its existing-output check before the
  loop consumes the first result, so each \<open>process_file\<close> sees the loaded cache and the
  file system of the start of the run. The loop consumes the results in completion order;
  the list here is in discovery order, and \<open>consume_order\<close> below shows that the saved
  cache and the counters do not depend on the order. A run that raises returns \<open>Inl\<close>:
  an exception of \<open>load_cache\<close> or of a task ends it before anything is saved, and so
  does an exception of \<open>save_cache\<close> at its end.
\<close>

definition main_async :: "world \<Rightarrow> exn + run_result" where
  "main_async w =
     (let audio_files = collect_audio_files (walk w) in
      case load_cache (cache_file w) of
        Inl e \<Rightarrow> Inl e
      | Inr loaded \<Rightarrow>
          (case gather (map (\<lambda>fp. process_file w fp loaded) audio_files) of
             Inl e \<Rightarrow> Inl e
           | Inr rs \<Rightarrow>
               let st = foldl consume
                          \<lparr>entries = loaded, Found_lyrics = 0, Missing_lyrics = 0\<rparr> (map fst rs);
                   w' = foldl apply_event w (concat (map snd rs))
               in (case save_cache (entries st) w' of
                     Inl e \<Rightarrow> Inl e
                   | Inr w'' \<Rightarrow>
                       Inr \<lparr>final_world = w'', results = rs,
                            final_state = st, total_files = length audio_files\<rparr>)))"

section \<open>A sample library\<close>

text \<open>
  A library of five audio files used to evaluate the definitions: one under a cached
  directory, one with its lyrics file present, one that the service knows, one that it does
  not know, and one without an artist tag.
\<close>

definition demo_tags :: "string \<Rightarrow> exn + audio" where
  "demo_tags p =
     (if p = ''/music/x/c.mp3'' then
        Inr \<lparr>album = Some ''Something Else'', title = Some ''Waterloo Sunset'',
             artist = Some ''The Kinks'', duration = Some (1057 / 5)\<rparr>
      else if p = ''/music/x/d.ogg'' then
        Inr \<lparr>album = None, title = Some ''Nothing'', artist = Some ''Nobody'', duration = Some 0\<rparr>
      else if p = ''/music/x/e.wav'' then
        Inr \<lparr>album = Some ''Loose'', title = Some ''Untitled'', artist = None, duration = Some 3\<rparr>
      else Inl TinyTagException)"

definition demo_service :: "params \<Rightarrow> exn + response" where
  "demo_service q =
     (if q = (Some ''The Kinks'', Some ''Waterloo Sunset'', Some ''Something Else'', 211) then
        Inr \<lparr>status_code = 200,
             json_body = Inr (JObj [(''syncedLyrics'', JStr ''[00:01.00] Dirty old river''),
                                    (''plainLyrics'', JStr ''Dirty old river'')])\<rparr>
      else Inr \<lparr>status_code = 404, json_body = Inr (JObj [(''message'', JStr ''not found'')])\<rparr>)"

definition demo :: world where
  "demo =
     \<lparr>isdir = (\<lambda>p. p \<in> set [''/music'', ''/music/done'', ''/music/x'', ''/music/old/'', ''.'']),
      exists = (\<lambda>p. p = ''/music/x/b.lrc''),
      walk = [(''/music'', [''readme.txt'']), (''/music/done'', [''a.mp3'']),
              (''/music/x'', [''b.flac'', ''c.mp3'', ''d.ogg'', ''e.wav''])],
      open_w = (\<lambda>p. None),
      write_text = (\<lambda>p. None),
      cache_file = Readable (''/music/done'' @ [LF]),
      cache_save_error = None,
      tinytag_get = demo_tags,
      client_get = demo_service\<rparr>"

text \<open>The sample library after a run: one lyrics file more, and the cache file written.\<close>

definition demo_after :: world where
  "demo_after =
     demo\<lparr>exists := (exists demo)(''/music/x/c.lrc'' := True),
          cache_file :=
            Readable (cache_text [''/music/done'', ''/music/x/b.flac'', ''/music/x/c.mp3''])\<rparr>"

section \<open>Ways a lookup fails\<close>

text \<open>
  A lookup that yields no JSON object: \<open>client.get\<close> raises (a transport error or a
  timeout), the status is not 200, or the body of a 200 response is not JSON or is JSON but
  not an object. A 200 response with a JSON object is not of this kind, whatever its fields
  hold.
\<close>

definition no_json_object :: "exn + response \<Rightarrow> bool" where
  "no_json_object res =
     (case res of
        Inl e \<Rightarrow> True
      | Inr r \<Rightarrow>
          if status_code r = 200 then
            (case json_body r of
               Inl e \<Rightarrow> True
             | Inr data \<Rightarrow> (case data of JObj kvs \<Rightarrow> False | _ \<Rightarrow> True))
          else True)"

text \<open>A service that answers every query with a genuine no-match, and one that always times out.\<close>

definition no_match :: "params \<Rightarrow> exn + response" where
  "no_match q = Inr \<lparr>status_code = 200, json_body = Inr (JObj [])\<rparr>"

definition timing_out :: "params \<Rightarrow> exn + response" where
  "timing_out q = Inl TimeoutException"

text \<open>A service whose answer carries a number where lyrics are expected.\<close>

definition numeric_lyrics :: "params \<Rightarrow> exn + response" where
  "numeric_lyrics q =
     Inr \<lparr>status_code = 200, json_body = Inr (JObj [(''syncedLyrics'', JNum 5)])\<rparr>"

text \<open>A service whose answer carries both lyrics fields, empty and null.\<close>

definition empty_lyrics :: "params \<Rightarrow> exn + response" where
  "empty_lyrics q =
     Inr \<lparr>status_code = 200,
          json_body = Inr (JObj [(''syncedLyrics'', JStr []), (''plainLyrics'', JNull)])\<rparr>"

text \<open>A tag reader that finds artist, title and album but no duration.\<close>

definition no_duration_tags :: "string \<Rightarrow> exn + audio" where
  "no_duration_tags p =
     Inr \<lparr>album = Some ''Something Else'', title = Some ''Waterloo Sunset'',
          artist = Some ''The Kinks'', duration = None\<rparr>"

definition demo_no_duration :: world where
  "demo_no_duration = demo\<lparr>tinytag_get := no_duration_tags\<rparr>"

text \<open>A tag reader that finds no tag at all, and no duration.\<close>

definition no_tags :: "string \<Rightarrow> exn + audio" where
  "no_tags p = Inr \<lparr>album = None, title = None, artist = None, duration = None\<rparr>"

definition demo_no_tags :: world where
  "demo_no_tags = demo\<lparr>tinytag_get := no_tags\<rparr>"

text \<open>The sample library with a cache file that exists and cannot be read.\<close>

definition demo_unreadable :: world where
  "demo_unreadable = demo\<lparr>cache_file := Unreadable OSError\<rparr>"

text \<open>The sample library with a cache file that cannot be opened for writing.\<close>

definition demo_unwritable :: world where
  "demo_unwritable = demo\<lparr>cache_save_error := Some OSError\<rparr>"

section \<open>Entries and the text of the cache file\<close>

text \<open>
  The entries that \<open>load_cache\<close> reads from a text, and the entries that the text format
  can hold: not empty, without a line break inside, without white space at either end.
\<close>

definition entries_of_text :: "string \<Rightarrow> string list" where
  "entries_of_text text =
     map strip (filter (\<lambda>line. strip line \<noteq> []) (readlines (universal_newlines text)))"

definition clean :: "string \<Rightarrow> bool" where
  "clean item =
     (item \<noteq> [] \<and> LF \<notin> set item \<and> CR \<notin> set item
      \<and> \<not> isspace (hd item) \<and> \<not> isspace (last item))"

text \<open>
  One step of the loop of \<open>is_in_cache\<close>: the entry covers the path.
\<close>

definition covers :: "world \<Rightarrow> string \<Rightarrow> string \<Rightarrow> bool" where
  "covers w file_path entry =
     (if isdir w entry then commonpath [file_path, entry] = Inr entry else file_path = entry)"

section \<open>The containment test as the specification words it\<close>

text \<open>
  The specification's \<open>Contains\<close>: the path equals some entry, or some entry is a
  directory and the path is lexically inside it. Lexically inside is read on the
  normalised sequences of path segments (empty segments and \<open>.\<close> dropped), for two paths
  that are both absolute or both relative: the segments of the directory are the first
  segments of the path.
\<close>

definition components :: "string \<Rightarrow> string list" where
  "components p = filter (\<lambda>c. c \<noteq> [] \<and> c \<noteq> ''.'') (split_sep CHR ''/'' p)"

definition lexically_inside :: "string \<Rightarrow> string \<Rightarrow> bool" where
  "lexically_inside path dir =
     ((take 1 path = ''/'') = (take 1 dir = ''/'')
      \<and> take (length (components dir)) (components path) = components dir)"

definition spec_Contains :: "world \<Rightarrow> string \<Rightarrow> string list \<Rightarrow> bool" where
  "spec_Contains w path cache_entries =
     list_ex (\<lambda>entry. path = entry \<or> (isdir w entry \<and> lexically_inside path entry)) cache_entries"

text \<open>
  A path in the form that \<open>commonpath\<close> returns: the segments joined by single
  separators, after the leading separator of an absolute path.
\<close>

definition normal :: "string \<Rightarrow> bool" where
  "normal e = (e = (if take 1 e = ''/'' then ''/'' else []) @ join ''/'' (components e))"

section \<open>The tasks of a run and the semaphore\<close>

text \<open>
  The coroutines of \<open>process_file\<close> interleave at their \<open>await\<close> points. A task is at
  one of these places: before its cache check and existing-output check, in the tag
  extraction (\<open>run_in_executor\<close>), waiting at \<open>async with sem\<close>, inside \<open>get_lyrics\<close>
  holding the semaphore, after the lookup (the test for \<open>None\<close> and the write), or
  finished.
\<close>

datatype pc = Checking | Extracting | Waiting | Looking_up | Writing | Finished

text \<open>The places of all tasks and the counter of the \<open>asyncio.Semaphore\<close>.\<close>

record sched =
  pcs :: "pc list"
  sem :: nat

text \<open>
  One step of the task for \<open>file_path\<close>, given the value of the semaphore: the new place
  and the new value, or \<open>None\<close> when the task cannot move (it waits for the semaphore, or
  it has finished). Only entering \<open>async with sem\<close> reads the semaphore, and only
  entering and leaving it change the value.
\<close>

fun advance :: "world \<Rightarrow> string list \<Rightarrow> string \<Rightarrow> pc \<Rightarrow> nat \<Rightarrow> (pc \<times> nat) option" where
  "advance w cache_entries file_path Checking v =
     Some (case is_in_cache w file_path cache_entries of
             Inl e \<Rightarrow> Finished
           | Inr True \<Rightarrow> Finished
           | Inr False \<Rightarrow> if exists w (lrc_path file_path) then Finished else Extracting,
           v)"
| "advance w cache_entries file_path Extracting v =
     Some (case get_song_details w file_path of
             Inl e \<Rightarrow> Finished
           | Inr (album', title', artist', duration') \<Rightarrow>
               if falsy artist' \<or> falsy title' then Finished else Waiting,
           v)"
| "advance w cache_entries file_path Waiting v =
     (if 0 < v then Some (Looking_up, v - 1) else None)"
| "advance w cache_entries file_path Looking_up v = Some (Writing, v + 1)"
| "advance w cache_entries file_path Writing v = Some (Finished, v)"
| "advance w cache_entries file_path Finished v = None"

text \<open>The event loop lets task \<open>i\<close> take its next step.\<close>

definition step :: "world \<Rightarrow> string list \<Rightarrow> string list \<Rightarrow> sched \<Rightarrow> nat \<Rightarrow> sched option" where
  "step w cache_entries audio_files s i =
     (if i < length audio_files \<and> i < length (pcs s) then
        (case advance w cache_entries (audio_files ! i) (pcs s ! i) (sem s) of
           None \<Rightarrow> None
         | Some (pc', v) \<Rightarrow> Some \<lparr>pcs = (pcs s)[i := pc'], sem = v\<rparr>)
      else None)"

text \<open>A schedule names the task that moves at each step; a schedule that asks a blocked task to move is not a run.\<close>

fun run :: "world \<Rightarrow> string list \<Rightarrow> string list \<Rightarrow> sched \<Rightarrow> nat list \<Rightarrow> sched option" where
  "run w cache_entries audio_files s [] = Some s"
| "run w cache_entries audio_files s (i # schedule) =
     (case step w cache_entries audio_files s i of
        None \<Rightarrow> None
      | Some s' \<Rightarrow> run w cache_entries audio_files s' schedule)"

text \<open>\<open>main_async\<close> creates one task for each file and \<open>asyncio.Semaphore(MAX_CONCURRENCY)\<close>.\<close>

definition start :: "string list \<Rightarrow> sched" where
  "start audio_files = \<lparr>pcs = replicate (length audio_files) Checking, sem = MAX_CONCURRENCY\<rparr>"

definition in_flight :: "sched \<Rightarrow> nat" where
  "in_flight s = length (filter (\<lambda>c. c = Looking_up) (pcs s))"

text \<open>
  The bookkeeping of the semaphore: every task has a place, and the tasks inside
  \<open>get_lyrics\<close> together with the free slots make up the capacity.
\<close>

definition balanced :: "string list \<Rightarrow> sched \<Rightarrow> bool" where
  "balanced audio_files s =
     (length (pcs s) = length audio_files \<and> in_flight s + sem s = MAX_CONCURRENCY)"

text \<open>
  A library of 22 files with artist and title and without lyrics files, and a schedule that
  brings the first 21 tasks to the semaphore and lets the first 20 of them pass.
\<close>

definition crowd :: "string list" where
  "crowd =
     [''/music/crowd/01.mp3'', ''/music/crowd/02.mp3'', ''/music/crowd/03.mp3'', ''/music/crowd/04.mp3'',
      ''/music/crowd/05.mp3'', ''/music/crowd/06.mp3'', ''/music/crowd/07.mp3'', ''/music/crowd/08.mp3'',
      ''/music/crowd/09.mp3'', ''/music/crowd/10.mp3'', ''/music/crowd/11.mp3'', ''/music/crowd/12.mp3'',
      ''/music/crowd/13.mp3'', ''/music/crowd/14.mp3'', ''/music/crowd/15.mp3'', ''/music/crowd/16.mp3'',
      ''/music/crowd/17.mp3'', ''/music/crowd/18.mp3'', ''/music/crowd/19.mp3'', ''/music/crowd/20.mp3'',
      ''/music/crowd/21.mp3'', ''/music/crowd/22.mp3'']"

definition crowd_tags :: "string \<Rightarrow> exn + audio" where
  "crowd_tags p =
     Inr \<lparr>album = None, title = Some ''Untitled'', artist = Some ''Somebody'', duration = Some 1\<rparr>"

definition crowd_world :: world where
  "crowd_world = demo\<lparr>exists := (\<lambda>p. False), tinytag_get := crowd_tags\<rparr>"

definition crowd_schedule :: "nat list" where
  "crowd_schedule = concat (map (\<lambda>i. [i, i]) [0..<21]) @ [0..<20]"

definition crowd_state :: sched where
  "crowd_state = \<lparr>pcs = replicate 20 Looking_up @ [Waiting, Checking], sem = 0\<rparr>"

section \<open>General facts about the definitions\<close>

lemma dict_get_not_obj: "(case data of JObj kvs \<Rightarrow> False | _ \<Rightarrow> True) \<Longrightarrow> dict_get data key = Inl AttributeError"
  by (cases data) simp_all

lemma get_lyrics_failed:
  "no_json_object (client_get w (ar, ti, al, d)) \<Longrightarrow> get_lyrics w ar ti al d = None"
  unfolding no_json_object_def get_lyrics_def
  by (auto simp: dict_get_not_obj split: sum.splits if_splits)

lemma get_lyrics_no_match: "get_lyrics (w\<lparr>client_get := no_match\<rparr>) ar ti al d = None"
  by (simp add: get_lyrics_def no_match_def)

lemma is_in_cache_isdir:
  "isdir w' = isdir w \<Longrightarrow> is_in_cache w' p cache = is_in_cache w p cache"
proof (induction cache)
  case Nil
  show ?case by simp
next
  case (Cons e es)
  then have "is_in_cache w' p es = is_in_cache w p es"
    by simp
  with Cons.prems show ?case
    by (simp only: is_in_cache.simps)
qed

lemma get_song_details_tags:
  "tinytag_get w' = tinytag_get w \<Longrightarrow> get_song_details w' p = get_song_details w p"
  by (simp add: get_song_details_def)

lemma process_file_lookup_none:
  assumes "is_in_cache w p cache = Inr False"
    and "\<not> exists w (lrc_path p)"
    and "get_song_details w p = Inr (al, ti, ar, d)"
    and "\<not> falsy ar" and "\<not> falsy ti"
    and "get_lyrics w ar ti al d = None"
  shows "process_file w p cache = Inr (Missing p, [Extract p, Lookup (ar, ti, al, d)])"
  using assms by (simp add: process_file_def)


lemma gather_map_Inr:
  "gather (map f xs) = Inr rs \<Longrightarrow> length rs = length xs \<and> (\<forall>i<length xs. f (xs ! i) = Inr (rs ! i))"
proof (induction xs arbitrary: rs)
  case Nil
  then show ?case by simp
next
  case (Cons x xs)
  from Cons.prems obtain y where y: "f x = Inr y"
    by (cases "f x") simp_all
  with Cons.prems obtain ys where ys: "gather (map f xs) = Inr ys" and rs: "rs = y # ys"
    by (cases "gather (map f xs)") simp_all
  from Cons.IH [OF ys] have len: "length ys = length xs"
    and nth: "\<And>i. i < length xs \<Longrightarrow> f (xs ! i) = Inr (ys ! i)"
    by simp_all
  show ?case
  proof (intro conjI allI impI)
    show "length rs = length (x # xs)" using len rs by simp
  next
    fix i assume "i < length (x # xs)"
    then show "f ((x # xs) ! i) = Inr (rs ! i)"
      using y rs nth by (cases i) simp_all
  qed
qed

lemma save_cache_Inr:
  "save_cache c w = Inr w' \<Longrightarrow>
   cache_save_error w = None \<and> w' = w\<lparr>cache_file := Readable (cache_text c)\<rparr>"
  by (cases "cache_save_error w") (simp_all add: save_cache_def)

lemma main_async_Inr:
  assumes "main_async w = Inr r"
  obtains loaded where "load_cache (cache_file w) = Inr loaded"
    and "gather (map (\<lambda>fp. process_file w fp loaded) (collect_audio_files (walk w))) = Inr (results r)"
    and "final_state r = foldl consume \<lparr>entries = loaded, Found_lyrics = 0, Missing_lyrics = 0\<rparr>
           (map fst (results r))"
    and "final_world r = (foldl apply_event w (concat (map snd (results r))))
           \<lparr>cache_file := Readable (cache_text (entries (final_state r)))\<rparr>"
    and "total_files r = length (collect_audio_files (walk w))"
proof -
  from assms obtain loaded where l: "load_cache (cache_file w) = Inr loaded"
    by (cases "load_cache (cache_file w)") (simp_all add: main_async_def)
  with assms obtain rs where
    g: "gather (map (\<lambda>fp. process_file w fp loaded) (collect_audio_files (walk w))) = Inr rs"
    by (cases "gather (map (\<lambda>fp. process_file w fp loaded) (collect_audio_files (walk w)))")
       (simp_all add: main_async_def)
  let ?st = "foldl consume \<lparr>entries = loaded, Found_lyrics = 0, Missing_lyrics = 0\<rparr> (map fst rs)"
  let ?w' = "foldl apply_event w (concat (map snd rs))"
  from assms l g obtain w'' where sv: "save_cache (entries ?st) ?w' = Inr w''"
    by (cases "save_cache (entries ?st) ?w'") (simp_all add: main_async_def Let_def)
  with assms l g have
    "r = \<lparr>final_world = w'', results = rs, final_state = ?st,
          total_files = length (collect_audio_files (walk w))\<rparr>"
    by (simp add: main_async_def Let_def)
  then have "results r = rs"
    and "final_state r = ?st"
    and "final_world r = w''"
    and "total_files r = length (collect_audio_files (walk w))"
    by simp_all
  moreover have "w'' = ?w'\<lparr>cache_file := Readable (cache_text (entries ?st))\<rparr>"
    using save_cache_Inr [OF sv] by simp
  ultimately show thesis
    using l g that by simp
qed

lemma entries_consume: "set (entries st) \<subseteq> set (entries (consume st out))"
  by (cases out) auto

lemma entries_foldl_consume_mono: "set (entries st) \<subseteq> set (entries (foldl consume st outs))"
proof (induction outs arbitrary: st)
  case Nil
  show ?case by simp
next
  case (Cons out outs)
  have "set (entries st) \<subseteq> set (entries (consume st out))"
    by (rule entries_consume)
  also have "\<dots> \<subseteq> set (entries (foldl consume (consume st out) outs))"
    by (rule Cons.IH)
  finally show ?case by simp
qed


lemma process_file_returns:
  "is_in_cache w p cache = Inr b \<Longrightarrow> \<exists>res evs. process_file w p cache = Inr (res, evs)"
  by (cases b)
     (auto simp: process_file_def Let_def split: sum.splits prod.splits option.splits)

lemma gather_all_Inr:
  "(\<And>x. x \<in> set xs \<Longrightarrow> \<exists>y. f x = Inr y) \<Longrightarrow> \<exists>rs. gather (map f xs) = Inr rs"
proof (induction xs)
  case Nil
  show ?case by simp
next
  case (Cons x xs)
  from Cons.prems [of x] obtain y where "f x = Inr y" by auto
  moreover from Cons.IH Cons.prems obtain rs where "gather (map f xs) = Inr rs" by auto
  ultimately show ?case by simp
qed

lemma is_in_cache_True_covers:
  "is_in_cache w p es = Inr True \<Longrightarrow> \<exists>e\<in>set es. covers w p e"
proof (induction es)
  case Nil
  then show ?case by simp
next
  case (Cons e es)
  show ?case
  proof (cases "covers w p e")
    case True
    then show ?thesis by simp
  next
    case False
    with Cons.prems have "is_in_cache w p es = Inr True"
      by (auto simp: covers_def split: if_splits sum.splits)
    then show ?thesis using Cons.IH by auto
  qed
qed

lemma is_in_cache_False_covers:
  "is_in_cache w p es = Inr False \<Longrightarrow> e \<in> set es \<Longrightarrow> \<not> covers w p e"
proof (induction es)
  case Nil
  then show ?case by simp
next
  case (Cons x es)
  from Cons.prems(1) have x: "\<not> covers w p x" and rest: "is_in_cache w p es = Inr False"
    by (auto simp: covers_def split: if_splits sum.splits)
  from Cons.prems(2) have "e = x \<or> e \<in> set es" by simp
  then show ?case using x rest Cons.IH by auto
qed

lemma covers_isdir: "isdir w' = isdir w \<Longrightarrow> covers w' p e = covers w p e"
  by (simp add: covers_def)

section \<open>Reading back what was saved\<close>

lemma CR_neq_LF: "CR \<noteq> LF" "LF \<noteq> CR"
  by (simp_all add: CR_def LF_def)

lemma isspace_LF: "isspace LF"
  by (simp add: isspace_def LF_def)

lemma load_cache_Readable: "load_cache (Readable text) = Inr (entries_of_text text)"
  by (simp add: load_cache_def entries_of_text_def)

lemma universal_newlines_id: "CR \<notin> set s \<Longrightarrow> universal_newlines s = s"
  by (induction s rule: universal_newlines.induct) auto

lemma universal_newlines_no_CR: "CR \<notin> set (universal_newlines s)"
  by (induction s rule: universal_newlines.induct) (auto simp: CR_neq_LF)

lemma universal_newlines_LF_Cons: "universal_newlines (LF # b) = LF # universal_newlines b"
  by (cases b) (simp_all add: CR_neq_LF)

lemma universal_newlines_append_LF:
  "universal_newlines (a @ LF # b) = universal_newlines (a @ [LF]) @ universal_newlines b"
proof (induction a rule: universal_newlines.induct)
  case 1
  show ?case by (simp add: universal_newlines_LF_Cons CR_neq_LF)
next
  case (2 c)
  show ?case by (simp add: universal_newlines_LF_Cons CR_neq_LF)
next
  case (3 c d cs)
  then show ?case by simp
qed

lemma universal_newlines_ends_LF: "\<exists>u. universal_newlines (a @ [LF]) = u @ [LF]"
proof (induction a rule: universal_newlines.induct)
  case 1
  show ?case by (simp add: CR_neq_LF)
next
  case (2 c)
  show ?case by (simp add: CR_neq_LF)
next
  case (3 c d cs)
  then show ?case by (auto simp: Cons_eq_append_conv)
qed

lemma readlines_nonempty: "s \<noteq> [] \<Longrightarrow> readlines s \<noteq> []"
  by (cases s) (auto split: list.splits)

lemma readlines_append_LF: "readlines (u @ LF # y) = readlines (u @ [LF]) @ readlines y"
proof (induction u)
  case Nil
  show ?case by simp
next
  case (Cons c u)
  have ne: "readlines (u @ [LF]) \<noteq> []"
    by (rule readlines_nonempty) simp
  then obtain l ls where l: "readlines (u @ [LF]) = l # ls"
    by (cases "readlines (u @ [LF])") auto
  show ?case
    using Cons.IH l by simp
qed

lemma readlines_single: "LF \<notin> set s \<Longrightarrow> readlines (s @ [LF]) = [s @ [LF]]"
  by (induction s) auto

lemma entries_of_text_append_LF:
  "entries_of_text (a @ LF # b) = entries_of_text (a @ [LF]) @ entries_of_text b"
proof -
  obtain u where u: "universal_newlines (a @ [LF]) = u @ [LF]"
    using universal_newlines_ends_LF by blast
  have "universal_newlines (a @ LF # b) = u @ LF # universal_newlines b"
    using universal_newlines_append_LF [of a b] u by simp
  moreover have "readlines (u @ LF # universal_newlines b)
      = readlines (u @ [LF]) @ readlines (universal_newlines b)"
    by (rule readlines_append_LF)
  ultimately have "readlines (universal_newlines (a @ LF # b))
      = readlines (universal_newlines (a @ [LF])) @ readlines (universal_newlines b)"
    using u by (simp only:)
  then show ?thesis
    by (simp add: entries_of_text_def)
qed

lemma entries_of_text_Nil: "entries_of_text [] = []"
  by (simp add: entries_of_text_def)

lemma entries_of_text_concat:
  "entries_of_text (concat (map (\<lambda>item. item @ [LF]) ys))
     = concat (map (\<lambda>item. entries_of_text (item @ [LF])) ys)"
proof (induction ys)
  case Nil
  show ?case by (simp add: entries_of_text_Nil)
next
  case (Cons y ys)
  have "entries_of_text (concat (map (\<lambda>item. item @ [LF]) (y # ys)))
      = entries_of_text (y @ LF # concat (map (\<lambda>item. item @ [LF]) ys))"
    by simp
  also have "\<dots> = entries_of_text (y @ [LF]) @ entries_of_text (concat (map (\<lambda>item. item @ [LF]) ys))"
    by (rule entries_of_text_append_LF)
  finally show ?case
    using Cons.IH by simp
qed

lemma strip_clean: "clean s \<Longrightarrow> strip (s @ [LF]) = s"
proof -
  assume c: "clean s"
  then obtain x xs where s: "s = x # xs" and x: "\<not> isspace x"
    by (cases s) (auto simp: clean_def)
  from c have l: "\<not> isspace (last s)" and ne: "s \<noteq> []"
    by (simp_all add: clean_def)
  have "dropWhile isspace (s @ [LF]) = s @ [LF]"
    using s x by simp
  moreover have "dropWhile isspace (rev (s @ [LF])) = rev s"
  proof -
    have "rev (s @ [LF]) = LF # rev s" by simp
    moreover have "dropWhile isspace (rev s) = rev s"
      using l ne by (cases "rev s") (auto simp: last_rev hd_rev)
    ultimately show ?thesis by (simp add: isspace_LF)
  qed
  ultimately show ?thesis by (simp add: strip_def)
qed

lemma entries_of_text_clean: "clean s \<Longrightarrow> entries_of_text (s @ [LF]) = [s]"
proof -
  assume c: "clean s"
  then have "CR \<notin> set (s @ [LF])" and "LF \<notin> set s" and "s \<noteq> []"
    by (auto simp: clean_def CR_neq_LF)
  then show ?thesis
    using strip_clean [OF c]
    by (simp add: entries_of_text_def universal_newlines_id readlines_single)
qed

lemma entries_of_cache_text:
  "entries_of_text (cache_text xs)
     = concat (map (\<lambda>item. entries_of_text (item @ [LF])) (sorted_set xs))"
  by (simp add: cache_text_def entries_of_text_concat)

lemma concat_map_singleton:
  "(\<And>y. y \<in> set ys \<Longrightarrow> f y = [y]) \<Longrightarrow> concat (map f ys) = ys"
  by (induction ys) simp_all

lemma set_sorted_set: "set (sorted_set xs) = set xs"
  by (simp add: sorted_set_def)

lemma roundtrip_clean:
  assumes "\<And>x. x \<in> set xs \<Longrightarrow> clean x"
  shows "entries_of_text (cache_text xs) = sorted_set xs"
proof -
  have "concat (map (\<lambda>item. entries_of_text (item @ [LF])) (sorted_set xs)) = sorted_set xs"
  proof (rule concat_map_singleton)
    fix y assume "y \<in> set (sorted_set xs)"
    then have "clean y"
      using assms by (simp add: set_sorted_set)
    then show "entries_of_text (y @ [LF]) = [y]"
      by (rule entries_of_text_clean)
  qed
  then show ?thesis
    by (simp add: entries_of_cache_text)
qed

lemma clean_survives:
  assumes "x \<in> set xs" and "clean x"
  shows "x \<in> set (entries_of_text (cache_text xs))"
proof -
  have "x \<in> set (sorted_set xs)"
    using assms(1) by (simp add: set_sorted_set)
  moreover have "x \<in> set (entries_of_text (x @ [LF]))"
    using assms(2) by (simp add: entries_of_text_clean)
  ultimately show ?thesis
    unfolding entries_of_cache_text by auto
qed

lemma readlines_cache_lines:
  "(\<And>y. y \<in> set ys \<Longrightarrow> LF \<notin> set y)
   \<Longrightarrow> readlines (concat (map (\<lambda>item. item @ [LF]) ys)) = map (\<lambda>item. item @ [LF]) ys"
proof (induction ys)
  case Nil
  show ?case by simp
next
  case (Cons y ys)
  have "readlines (concat (map (\<lambda>item. item @ [LF]) (y # ys)))
      = readlines (y @ LF # concat (map (\<lambda>item. item @ [LF]) ys))"
    by simp
  also have "\<dots> = readlines (y @ [LF]) @ readlines (concat (map (\<lambda>item. item @ [LF]) ys))"
    by (rule readlines_append_LF)
  finally show ?case
    using Cons by (simp add: readlines_single)
qed

lemma sorted_sorted_set: "sorted (sorted_set xs)"
  by (simp add: sorted_set_def)

lemma distinct_sorted_set: "distinct (sorted_set xs)"
  by (simp add: sorted_set_def)

lemma strip_subset: "set (strip s) \<subseteq> set s"
proof -
  have "set (strip s) = set (dropWhile isspace (rev (dropWhile isspace s)))"
    by (simp add: strip_def)
  also have "\<dots> \<subseteq> set (rev (dropWhile isspace s))"
    by (auto dest: set_dropWhileD)
  also have "\<dots> \<subseteq> set s"
    by (auto dest: set_dropWhileD)
  finally show ?thesis .
qed

lemma strip_last: "strip s \<noteq> [] \<Longrightarrow> \<not> isspace (last (strip s))"
proof -
  assume ne: "strip s \<noteq> []"
  let ?r = "dropWhile isspace (rev (dropWhile isspace s))"
  from ne have "?r \<noteq> []" by (simp add: strip_def)
  then have "\<not> isspace (hd ?r)" by (rule hd_dropWhile)
  moreover have "last (strip s) = hd ?r"
    using \<open>?r \<noteq> []\<close> by (simp add: strip_def last_rev)
  ultimately show ?thesis by simp
qed

lemma dropWhile_rev_keeps_hd:
  assumes "dropWhile P (rev t) \<noteq> []"
  shows "hd (rev (dropWhile P (rev t))) = hd t"
proof -
  have "rev t = takeWhile P (rev t) @ dropWhile P (rev t)"
    by simp
  then have "t = rev (dropWhile P (rev t)) @ rev (takeWhile P (rev t))"
    by (metis rev_append rev_rev_ident)
  moreover have "rev (dropWhile P (rev t)) \<noteq> []"
    using assms by simp
  ultimately show ?thesis
    by (metis hd_append2)
qed

lemma strip_hd: "strip s \<noteq> [] \<Longrightarrow> \<not> isspace (hd (strip s))"
proof -
  assume ne: "strip s \<noteq> []"
  let ?t = "dropWhile isspace s"
  from ne have r: "dropWhile isspace (rev ?t) \<noteq> []" by (simp add: strip_def)
  have "?t \<noteq> []"
  proof
    assume "?t = []"
    then have "dropWhile isspace (rev ?t) = []" by (simp only: rev.simps dropWhile.simps)
    with r show False by simp
  qed
  then have "\<not> isspace (hd ?t)" by (rule hd_dropWhile)
  moreover have "hd (strip s) = hd ?t"
    unfolding strip_def using r by (rule dropWhile_rev_keeps_hd)
  ultimately show ?thesis by simp
qed

lemma strip_snoc_space: "isspace c \<Longrightarrow> strip (m @ [c]) = strip m"
proof (cases "\<forall>x\<in>set m. isspace x")
  case True
  assume "isspace c"
  with True have "dropWhile isspace (m @ [c]) = []" and "dropWhile isspace m = []"
    by simp_all
  then show ?thesis by (simp only: strip_def rev.simps dropWhile.simps)
next
  case False
  assume c: "isspace c"
  from False have "dropWhile isspace (m @ [c]) = dropWhile isspace m @ [c]"
    by (auto simp: dropWhile_append)
  with c show ?thesis by (simp add: strip_def)
qed

lemma readlines_line_shape:
  "l \<in> set (readlines s) \<Longrightarrow> l \<noteq> [] \<and> LF \<notin> set (butlast l) \<and> set l \<subseteq> set s"
proof (induction s arbitrary: l)
  case Nil
  then show ?case by simp
next
  case (Cons c s)
  show ?case
  proof (cases "c = LF")
    case True
    with Cons.prems have "l = [c] \<or> l \<in> set (readlines s)" by simp
    then show ?thesis using Cons.IH by auto
  next
    case False
    show ?thesis
    proof (cases "readlines s")
      case Nil
      with False Cons.prems show ?thesis by simp
    next
      case (Cons l' ls)
      with False Cons.prems have "l = c # l' \<or> l \<in> set ls" by simp
      then show ?thesis
      proof
        assume l: "l = c # l'"
        have "l' \<noteq> [] \<and> LF \<notin> set (butlast l') \<and> set l' \<subseteq> set s"
          using Cons.IH [of l'] Cons by simp
        with l False show ?thesis by auto
      next
        assume "l \<in> set ls"
        then have "l \<in> set (readlines s)" using Cons by simp
        then show ?thesis using Cons.IH by auto
      qed
    qed
  qed
qed

lemma strip_no_LF:
  assumes "LF \<notin> set (butlast l)"
  shows "LF \<notin> set (strip l)"
proof (cases "l = []")
  case True
  then show ?thesis by (simp add: strip_def)
next
  case False
  then have l: "l = butlast l @ [last l]" by simp
  show ?thesis
  proof (cases "last l = LF")
    case True
    then have "strip l = strip (butlast l)"
      using l strip_snoc_space [of LF "butlast l"] by (simp add: isspace_LF)
    then show ?thesis
      using assms strip_subset [of "butlast l"] by auto
  next
    case False
    then have "LF \<notin> set l"
      using assms l by (metis Un_iff empty_iff empty_set insert_iff list.simps(15) set_append)
    then show ?thesis
      using strip_subset [of l] by auto
  qed
qed

lemma entries_of_text_all_clean:
  assumes "e \<in> set (entries_of_text t)"
  shows "clean e"
proof -
  from assms obtain l where l: "l \<in> set (readlines (universal_newlines t))"
    and e: "e = strip l" and ne: "strip l \<noteq> []"
    by (auto simp: entries_of_text_def)
  from readlines_line_shape [OF l] have shape: "LF \<notin> set (butlast l)"
    and sub: "set l \<subseteq> set (universal_newlines t)"
    by simp_all
  have "CR \<notin> set l"
    using sub universal_newlines_no_CR [of t] by auto
  then have "CR \<notin> set e"
    using strip_subset [of l] e by auto
  moreover have "LF \<notin> set e"
    using shape e by (simp add: strip_no_LF)
  ultimately show ?thesis
    using e ne strip_hd [OF ne] strip_last [OF ne] by (simp add: clean_def)
qed

lemma load_cache_all_clean:
  assumes "load_cache f = Inr loaded" and "e \<in> set loaded"
  shows "clean e"
proof (cases f)
  case Absent
  with assms show ?thesis by (simp add: load_cache_def)
next
  case (Unreadable x)
  with assms show ?thesis by (simp add: load_cache_def)
next
  case (Readable content)
  with assms have "e \<in> set (entries_of_text content)"
    by (simp add: load_cache_Readable)
  then show ?thesis by (rule entries_of_text_all_clean)
qed

section \<open>Facts about a run\<close>

lemma apply_event_fields:
  "isdir (apply_event w ev) = isdir w"
  "walk (apply_event w ev) = walk w"
  "cache_file (apply_event w ev) = cache_file w"
  "cache_save_error (apply_event w ev) = cache_save_error w"
  "tinytag_get (apply_event w ev) = tinytag_get w"
  "client_get (apply_event w ev) = client_get w"
  by (cases ev; simp)+

lemma apply_events_fields:
  "isdir (foldl apply_event w evs) = isdir w"
  "walk (foldl apply_event w evs) = walk w"
  "cache_file (foldl apply_event w evs) = cache_file w"
  "cache_save_error (foldl apply_event w evs) = cache_save_error w"
  "tinytag_get (foldl apply_event w evs) = tinytag_get w"
  "client_get (foldl apply_event w evs) = client_get w"
  by (induction evs arbitrary: w; simp add: apply_event_fields)+

lemma apply_event_exists: "exists (apply_event w ev) q = (exists w q \<or> ev = OpenW q)"
  by (cases ev) auto

lemma apply_events_exists:
  "exists (foldl apply_event w evs) q = (exists w q \<or> OpenW q \<in> set evs)"
proof (induction evs arbitrary: w)
  case Nil
  show ?case by simp
next
  case (Cons ev evs)
  show ?case
    using Cons.IH [of "apply_event w ev"] by (auto simp: apply_event_exists)
qed

lemma process_files_gathered:
  assumes "\<And>p. p \<in> set files \<Longrightarrow> \<exists>b. is_in_cache w p loaded = Inr b"
  shows "\<exists>rs. gather (map (\<lambda>fp. process_file w fp loaded) files) = Inr rs"
proof (rule gather_all_Inr)
  fix p assume "p \<in> set files"
  then obtain b where "is_in_cache w p loaded = Inr b"
    using assms by blast
  then show "\<exists>y. process_file w p loaded = Inr y"
    using process_file_returns by fastforce
qed

lemma main_async_completes:
  assumes "load_cache (cache_file w) = Inr loaded"
    and "\<And>p. p \<in> set (collect_audio_files (walk w)) \<Longrightarrow> \<exists>b. is_in_cache w p loaded = Inr b"
    and "cache_save_error w = None"
  shows "\<exists>r. main_async w = Inr r"
proof -
  obtain rs where
    "gather (map (\<lambda>fp. process_file w fp loaded) (collect_audio_files (walk w))) = Inr rs"
    using process_files_gathered [of "collect_audio_files (walk w)" w loaded] assms(2) by blast
  then show ?thesis
    using assms(1,3)
    by (simp add: main_async_def Let_def save_cache_def apply_events_fields)
qed

lemma main_async_save_fails:
  assumes "load_cache (cache_file w) = Inr loaded"
    and "\<And>p. p \<in> set (collect_audio_files (walk w)) \<Longrightarrow> \<exists>b. is_in_cache w p loaded = Inr b"
    and "cache_save_error w = Some e"
  shows "main_async w = Inl e"
proof -
  obtain rs where
    "gather (map (\<lambda>fp. process_file w fp loaded) (collect_audio_files (walk w))) = Inr rs"
    using process_files_gathered [of "collect_audio_files (walk w)" w loaded] assms(2) by blast
  then show ?thesis
    using assms(1,3)
    by (simp add: main_async_def Let_def save_cache_def apply_events_fields)
qed

lemma process_file_Inr_checked:
  "process_file w p cache = Inr x \<Longrightarrow> \<exists>b. is_in_cache w p cache = Inr b"
  by (cases "is_in_cache w p cache") (simp_all add: process_file_def)

lemma process_file_cached:
  "is_in_cache w p cache = Inr True \<Longrightarrow> process_file w p cache = Inr (Cached p, [])"
  by (simp add: process_file_def)

lemma write_lyrics_Found:
  "write_lyrics w p np lyrics = (Found q, evs) \<Longrightarrow> q = p \<and> OpenW np \<in> set evs"
  by (auto simp: write_lyrics_def split: option.splits json.splits)

lemma write_lyrics_not_resolved:
  "write_lyrics w p np lyrics \<noteq> (Cached q, evs)"
  "write_lyrics w p np lyrics \<noteq> (AlreadyExists q, evs)"
  by (auto simp: write_lyrics_def split: option.splits json.splits)

lemma process_file_Cached_inv:
  assumes "process_file w p cache = Inr (Cached q, evs)"
  shows "q = p \<and> is_in_cache w p cache = Inr True"
proof -
  from assms obtain b where b: "is_in_cache w p cache = Inr b"
    using process_file_Inr_checked by blast
  show ?thesis
  proof (cases b)
    case True
    with b assms show ?thesis by (simp add: process_file_def)
  next
    case False
    with b assms have False
      using write_lyrics_not_resolved(1) [of w p "lrc_path p" _ q]
      by (auto simp: process_file_def Let_def split: if_splits sum.splits option.splits prod.splits)
    then show ?thesis ..
  qed
qed

lemma process_file_AlreadyExists_inv:
  assumes "process_file w p cache = Inr (AlreadyExists q, evs)"
  shows "q = p \<and> exists w (lrc_path p)"
proof -
  from assms obtain b where b: "is_in_cache w p cache = Inr b"
    using process_file_Inr_checked by blast
  show ?thesis
  proof (cases b)
    case True
    with b assms show ?thesis by (simp add: process_file_def)
  next
    case False
    show ?thesis
    proof (cases "exists w (lrc_path p)")
      case True
      with b False assms show ?thesis by (simp add: process_file_def)
    next
      case nex: False
      with b False assms have False
        using write_lyrics_not_resolved(2) [of w p "lrc_path p" _ q]
        by (auto simp: process_file_def Let_def split: if_splits sum.splits option.splits prod.splits)
      then show ?thesis ..
    qed
  qed
qed

lemma process_file_Found_inv:
  assumes "process_file w p cache = Inr (Found q, evs)"
  shows "q = p \<and> OpenW (lrc_path p) \<in> set evs"
proof -
  from assms obtain b where b: "is_in_cache w p cache = Inr b"
    using process_file_Inr_checked by blast
  show ?thesis
  proof (cases b)
    case True
    with b assms show ?thesis by (simp add: process_file_def)
  next
    case False
    with b assms show ?thesis
      using write_lyrics_Found [of w p "lrc_path p"]
      by (auto simp: process_file_def Let_def split: if_splits sum.splits option.splits prod.splits)
  qed
qed

lemma process_file_resolved_again:
  assumes "process_file w p cache = Inr x"
    and "exists w (lrc_path p) \<or> (\<exists>e\<in>set cache. covers w p e)"
  shows "x = (Cached p, []) \<or> x = (AlreadyExists p, [])"
proof -
  from assms(1) obtain b where b: "is_in_cache w p cache = Inr b"
    using process_file_Inr_checked by blast
  show ?thesis
  proof (cases b)
    case True
    with b assms(1) show ?thesis by (simp add: process_file_def)
  next
    case False
    with b have nb: "is_in_cache w p cache = Inr False"
      by simp
    have "\<And>e. e \<in> set cache \<Longrightarrow> \<not> covers w p e"
      using nb by (rule is_in_cache_False_covers)
    with assms(2) have "exists w (lrc_path p)" by blast
    with b False assms(1) show ?thesis by (simp add: process_file_def)
  qed
qed

lemma sorted_set_by_set: "sorted_set xs = sorted_list_of_set (set xs)"
  by (simp add: sorted_set_def sorted_list_of_set_sort_remdups)

lemma consume_entries:
  "set (entries (foldl consume st outs))
     = set (entries st) \<union> {p. AlreadyExists p \<in> set outs \<or> Found p \<in> set outs}"
proof (induction outs arbitrary: st)
  case Nil
  show ?case by simp
next
  case (Cons out outs)
  show ?case
    unfolding foldl_Cons Cons.IH by (cases out) auto
qed

lemma consume_found:
  "Found_lyrics (foldl consume st outs)
     = Found_lyrics st + length (filter (\<lambda>out. \<exists>p. out = Found p) outs)"
proof (induction outs arbitrary: st)
  case Nil
  show ?case by simp
next
  case (Cons out outs)
  show ?case
    unfolding foldl_Cons Cons.IH by (cases out) auto
qed

lemma consume_missing:
  "Missing_lyrics (foldl consume st outs)
     = Missing_lyrics st
       + length (filter (\<lambda>out. (\<exists>p. out = Missing p) \<or> (\<exists>p e. out = Error p e)) outs)"
proof (induction outs arbitrary: st)
  case Nil
  show ?case by simp
next
  case (Cons out outs)
  show ?case
    unfolding foldl_Cons Cons.IH by (cases out) auto
qed

lemma length_filter_mset: "mset xs = mset ys \<Longrightarrow> length (filter P xs) = length (filter P ys)"
proof -
  assume "mset xs = mset ys"
  then have "mset (filter P xs) = mset (filter P ys)"
    by (simp only: mset_filter)
  then show ?thesis
    by (rule mset_eq_length)
qed

lemma consume_order:
  assumes "mset outs' = mset outs"
  shows "cache_text (entries (foldl consume st outs')) = cache_text (entries (foldl consume st outs))
    \<and> Found_lyrics (foldl consume st outs') = Found_lyrics (foldl consume st outs)
    \<and> Missing_lyrics (foldl consume st outs') = Missing_lyrics (foldl consume st outs)"
proof -
  from assms have "set outs' = set outs"
    by (rule mset_eq_setD)
  then have "set (entries (foldl consume st outs')) = set (entries (foldl consume st outs))"
    by (simp add: consume_entries)
  then have "sorted_set (entries (foldl consume st outs'))
      = sorted_set (entries (foldl consume st outs))"
    by (simp add: sorted_set_by_set)
  then show ?thesis
    using length_filter_mset [OF assms] by (simp add: cache_text_def consume_found consume_missing)
qed

section \<open>Facts about the semaphore\<close>

lemma count_update:
  "i < length xs \<Longrightarrow>
   length (filter P (xs[i := y])) + (if P (xs ! i) then 1 else 0)
     = length (filter P xs) + (if P y then 1 else 0)"
proof (induction xs arbitrary: i)
  case Nil
  then show ?case by simp
next
  case (Cons x xs)
  show ?case
  proof (cases i)
    case 0
    then show ?thesis by simp
  next
    case (Suc j)
    with Cons.prems have "j < length xs" by simp
    from Cons.IH [OF this] Suc show ?thesis by simp
  qed
qed

lemma advance_balance:
  assumes "advance w cache p c v = Some (c', v')"
  shows "(if c' = Looking_up then 1 else 0) + v' = (if c = Looking_up then 1 else 0) + v"
  using assms
  by (cases c) (auto split: sum.splits bool.splits if_splits prod.splits)

lemma step_balanced:
  assumes "balanced files s" and "step w cache files s i = Some s'"
  shows "balanced files s'"
proof -
  from assms(2) have i: "i < length (pcs s)"
    by (simp add: step_def split: if_splits)
  from assms(2) i obtain c' v' where
    adv: "advance w cache (files ! i) (pcs s ! i) (sem s) = Some (c', v')"
    and s': "s' = \<lparr>pcs = (pcs s)[i := c'], sem = v'\<rparr>"
    by (auto simp: step_def split: if_splits option.splits)
  have "in_flight s' + (if pcs s ! i = Looking_up then 1 else 0)
      = in_flight s + (if c' = Looking_up then 1 else 0)"
    unfolding in_flight_def s' using count_update [OF i, of "\<lambda>c. c = Looking_up" c'] by simp
  moreover have "(if c' = Looking_up then 1 else 0) + v'
      = (if pcs s ! i = Looking_up then 1 else 0) + sem s"
    using adv by (rule advance_balance)
  ultimately have "in_flight s' + sem s' = in_flight s + sem s"
    using s' by (simp split: if_splits)
  then show ?thesis
    using assms(1) s' by (simp add: balanced_def)
qed

lemma start_balanced: "balanced files (start files)"
  by (simp add: balanced_def start_def in_flight_def)

lemma run_balanced:
  "balanced files s \<Longrightarrow> run w cache files s schedule = Some s' \<Longrightarrow> balanced files s'"
proof (induction schedule arbitrary: s)
  case Nil
  then show ?case by simp
next
  case (Cons i schedule)
  from Cons.prems(2) obtain s1 where s1: "step w cache files s i = Some s1"
    and rest: "run w cache files s1 schedule = Some s'"
    by (auto split: option.splits)
  from Cons.prems(1) s1 have "balanced files s1"
    by (rule step_balanced)
  then show ?case
    using rest by (rule Cons.IH)
qed

lemma step_ungated:
  assumes "i < length files" and "length (pcs s) = length files"
    and "pcs s ! i = Checking \<or> pcs s ! i = Extracting \<or> pcs s ! i = Writing"
  shows "\<exists>s'. step w cache files s i = Some s' \<and> sem s' = sem s"
  using assms by (auto simp: step_def)

lemma step_release:
  assumes "i < length files" and "length (pcs s) = length files" and "pcs s ! i = Looking_up"
  shows "step w cache files s i = Some \<lparr>pcs = (pcs s)[i := Writing], sem = sem s + 1\<rparr>"
  using assms by (simp add: step_def)

lemma step_acquire:
  assumes "i < length files" and "length (pcs s) = length files" and "pcs s ! i = Waiting"
  shows "step w cache files s i
     = (if 0 < sem s then Some \<lparr>pcs = (pcs s)[i := Looking_up], sem = sem s - 1\<rparr> else None)"
  using assms by (simp add: step_def)

section \<open>The containment test on entries in normal form\<close>

text \<open>
  Where every directory entry is in the form that \<open>commonpath\<close> returns, and is absolute
  or relative as the path is, \<open>is_in_cache\<close> returns, and its answer is the
  specification's containment test.
\<close>

lemma common_prefix_sym: "common_prefix xs ys = common_prefix ys xs"
proof (induction xs arbitrary: ys)
  case Nil
  show ?case by (cases ys) simp_all
next
  case (Cons x xs)
  show ?case
  proof (cases ys)
    case Nil
    then show ?thesis by simp
  next
    case (Cons y ys')
    then show ?thesis using Cons.IH [of ys'] by simp
  qed
qed

lemma common_prefix_min_max:
  "common_prefix (min a b) (max a b) = common_prefix a (b :: 'a :: linorder list)"
  by (cases "a \<le> b") (simp_all add: min_def max_def common_prefix_sym)

lemma common_prefix_is_prefix: "\<exists>r. b = common_prefix a b @ r"
proof (induction a arbitrary: b)
  case Nil
  show ?case by simp
next
  case (Cons x a)
  show ?case
  proof (cases b)
    case Nil
    then show ?thesis by simp
  next
    case (Cons y b')
    then show ?thesis using Cons.IH [of b'] by simp
  qed
qed

lemma common_prefix_whole: "(common_prefix a b = b) = (take (length b) a = b)"
proof (induction a arbitrary: b)
  case Nil
  show ?case by (cases b) simp_all
next
  case (Cons x a)
  show ?case
  proof (cases b)
    case Nil
    then show ?thesis by simp
  next
    case (Cons y b')
    then show ?thesis using Cons.IH [of b'] by auto
  qed
qed

lemma join_nonempty: "r \<noteq> [] \<Longrightarrow> hd r \<noteq> [] \<Longrightarrow> join sep r \<noteq> []"
  by (induction sep r rule: join.induct) simp_all

lemma join_longer:
  assumes "r \<noteq> []" and "hd r \<noteq> []"
  shows "length (join sep cp) < length (join sep (cp @ r))"
proof (induction sep cp rule: join.induct)
  case (1 sep)
  from assms show ?case by (simp add: join_nonempty)
next
  case (2 sep p)
  from assms obtain y r' where r: "r = y # r'" by (cases r) auto
  have "join sep (y # r') \<noteq> []"
    using assms r join_nonempty [of "y # r'"] by simp
  then show ?case using r by simp
next
  case (3 sep p q ps)
  then show ?case by simp
qed

lemma components_nonempty: "c \<in> set (components p) \<Longrightarrow> c \<noteq> []"
  by (simp add: components_def)

lemma join_prefix_eq:
  assumes "b = cp @ r" and "\<And>c. c \<in> set b \<Longrightarrow> c \<noteq> []" and "join sep cp = join sep b"
  shows "cp = b"
proof (cases "r = []")
  case True
  with assms(1) show ?thesis by simp
next
  case False
  then have "hd r \<in> set b" using assms(1) by simp
  then have "hd r \<noteq> []" by (rule assms(2))
  with False have "length (join sep cp) < length (join sep (cp @ r))"
    by (rule join_longer)
  with assms(1,3) show ?thesis by simp
qed

lemma commonpath_pair:
  "commonpath [p, e] =
     (if (take 1 p = ''/'') = (take 1 e = ''/'')
      then Inr ((if take 1 p = ''/'' then ''/'' else [])
                @ join ''/'' (common_prefix (components p) (components e)))
      else Inl ValueError)"
proof (cases "(take 1 p = ''/'') = (take 1 e = ''/'')")
  case True
  have "common_prefix (min (components e) (components p)) (max (components e) (components p))
      = common_prefix (components e) (components p)"
    by (rule common_prefix_min_max)
  also have "\<dots> = common_prefix (components p) (components e)"
    by (rule common_prefix_sym)
  finally have "common_prefix (min (components e) (components p))
        (max (components e) (components p))
      = common_prefix (components p) (components e)" .
  with True show ?thesis
    by (simp add: commonpath_def components_def Let_def)
next
  case False
  then show ?thesis
    by (simp add: commonpath_def Let_def)
qed

lemma commonpath_is_entry:
  assumes "(take 1 p = ''/'') = (take 1 e = ''/'')" and "normal e"
  shows "(commonpath [p, e] = Inr e) = lexically_inside p e"
proof -
  let ?pre = "if take 1 e = ''/'' then ''/'' else []"
  let ?cp = "common_prefix (components p) (components e)"
  have e: "e = ?pre @ join ''/'' (components e)"
    using assms(2) by (simp add: normal_def)
  have cp: "commonpath [p, e] = Inr (?pre @ join ''/'' ?cp)"
    using assms(1) by (simp add: commonpath_pair)
  have "(commonpath [p, e] = Inr e) = (join ''/'' ?cp = join ''/'' (components e))"
  proof -
    have "(commonpath [p, e] = Inr e) = (?pre @ join ''/'' ?cp = ?pre @ join ''/'' (components e))"
      unfolding cp using e by (metis sum.inject(2))
    then show ?thesis by simp
  qed
  also have "\<dots> = (?cp = components e)"
  proof
    assume j: "join ''/'' ?cp = join ''/'' (components e)"
    obtain r where "components e = ?cp @ r"
      using common_prefix_is_prefix by blast
    then show "?cp = components e"
      using components_nonempty j by (rule join_prefix_eq)
  next
    assume "?cp = components e"
    then show "join ''/'' ?cp = join ''/'' (components e)" by simp
  qed
  also have "\<dots> = (take (length (components e)) (components p) = components e)"
    by (rule common_prefix_whole)
  finally show ?thesis
    using assms(1) by (simp add: lexically_inside_def)
qed

lemma lexically_inside_refl: "lexically_inside e e"
  by (simp add: lexically_inside_def)

lemma covers_meets_spec:
  assumes "isdir w e \<Longrightarrow> normal e \<and> (take 1 p = ''/'') = (take 1 e = ''/'')"
  shows "covers w p e = (p = e \<or> (isdir w e \<and> lexically_inside p e))"
proof (cases "isdir w e")
  case True
  with assms have "(commonpath [p, e] = Inr e) = lexically_inside p e"
    using commonpath_is_entry by blast
  with True show ?thesis
    using lexically_inside_refl by (auto simp: covers_def)
next
  case False
  then show ?thesis by (simp add: covers_def)
qed

lemma is_in_cache_by_covers:
  assumes "\<And>e. e \<in> set es \<Longrightarrow> isdir w e \<Longrightarrow> (take 1 p = ''/'') = (take 1 e = ''/'')"
  shows "is_in_cache w p es = Inr (list_ex (covers w p) es)"
  using assms
proof (induction es)
  case Nil
  show ?case by simp
next
  case (Cons e es)
  have rest: "is_in_cache w p es = Inr (list_ex (covers w p) es)"
    using Cons.IH Cons.prems by simp
  show ?case
  proof (cases "isdir w e")
    case True
    then have "(take 1 p = ''/'') = (take 1 e = ''/'')"
      using Cons.prems by simp
    then obtain c where c: "commonpath [p, e] = Inr c"
      by (simp add: commonpath_pair)
    with True have "covers w p e = (c = e)"
      by (simp add: covers_def)
    with True rest c show ?thesis
      by simp
  next
    case False
    then have "covers w p e = (p = e)"
      by (simp add: covers_def)
    with False rest show ?thesis
      by simp
  qed
qed

lemma is_in_cache_meets_spec:
  assumes "\<And>e. e \<in> set es \<Longrightarrow> isdir w e
             \<Longrightarrow> normal e \<and> (take 1 p = ''/'') = (take 1 e = ''/'')"
  shows "is_in_cache w p es = Inr (spec_Contains w p es)"
proof -
  have "is_in_cache w p es = Inr (list_ex (covers w p) es)"
    using assms by (intro is_in_cache_by_covers) simp
  moreover have "list_ex (covers w p) es
      = list_ex (\<lambda>e. p = e \<or> (isdir w e \<and> lexically_inside p e)) es"
    unfolding list_ex_iff using assms covers_meets_spec [of w _ p] by blast
  ultimately show ?thesis
    by (simp add: spec_Contains_def)
qed

lemma process_file_cached_by_spec:
  assumes "spec_Contains w p es"
    and "\<And>e. e \<in> set es \<Longrightarrow> isdir w e
             \<Longrightarrow> normal e \<and> (take 1 p = ''/'') = (take 1 e = ''/'')"
  shows "process_file w p es = Inr (Cached p, [])"
proof -
  have "is_in_cache w p es = Inr (spec_Contains w p es)"
    using assms(2) by (rule is_in_cache_meets_spec)
  with assms(1) have "is_in_cache w p es = Inr True"
    by simp
  then show ?thesis
    by (rule process_file_cached)
qed

section \<open>The sample library, evaluated\<close>

lemma py_int_ex: "py_int (1057 / 5) = 211"
proof -
  have "\<lfloor>1057 / 5 :: rat\<rfloor> = 211"
    by (rule floor_unique) simp_all
  then show ?thesis by (simp add: py_int_def)
qed

lemma demo_save: "cache_save_error demo = None"
  by (simp add: demo_def)

lemma demo_files:
  "collect_audio_files (walk demo)
     = [''/music/done/a.mp3'', ''/music/x/b.flac'', ''/music/x/c.mp3'',
        ''/music/x/d.ogg'', ''/music/x/e.wav'']"
  by (simp add: collect_audio_files_def demo_def audio_suffixes_def endswith_any_def
      endswith_def path_join_def)

lemma demo_load: "load_cache (cache_file demo) = Inr [''/music/done'']"
  by (simp add: demo_def load_cache_def LF_def CR_def strip_def isspace_def)

lemma demo_a:
  "process_file demo ''/music/done/a.mp3'' [''/music/done''] = Inr (Cached ''/music/done/a.mp3'', [])"
  by (simp add: process_file_def demo_def commonpath_def)

lemma lrc_b: "lrc_path ''/music/x/b.flac'' = ''/music/x/b.lrc''"
  by (simp add: lrc_path_def splitext_def rfind_def)

lemma lrc_c: "lrc_path ''/music/x/c.mp3'' = ''/music/x/c.lrc''"
  by (simp add: lrc_path_def splitext_def rfind_def)

lemma lrc_d: "lrc_path ''/music/x/d.ogg'' = ''/music/x/d.lrc''"
  by (simp add: lrc_path_def splitext_def rfind_def)

lemma lrc_e: "lrc_path ''/music/x/e.wav'' = ''/music/x/e.lrc''"
  by (simp add: lrc_path_def splitext_def rfind_def)

lemma demo_not_cached:
  "is_in_cache demo ''/music/x/b.flac'' [''/music/done''] = Inr False"
  "is_in_cache demo ''/music/x/c.mp3'' [''/music/done''] = Inr False"
  "is_in_cache demo ''/music/x/d.ogg'' [''/music/done''] = Inr False"
  "is_in_cache demo ''/music/x/e.wav'' [''/music/done''] = Inr False"
  by (simp_all add: demo_def commonpath_def)

lemma demo_exists:
  "\<not> exists demo ''/music/x/c.lrc''" "\<not> exists demo ''/music/x/d.lrc''"
  "\<not> exists demo ''/music/x/e.lrc''" "exists demo ''/music/x/b.lrc''"
  by (simp_all add: demo_def)

lemma demo_b:
  "process_file demo ''/music/x/b.flac'' [''/music/done''] = Inr (AlreadyExists ''/music/x/b.flac'', [])"
  by (simp add: process_file_def demo_not_cached lrc_b demo_exists del: is_in_cache.simps)

lemma demo_details:
  "get_song_details demo ''/music/x/c.mp3''
     = Inr (Some ''Something Else'', Some ''Waterloo Sunset'', Some ''The Kinks'', 211)"
  "get_song_details demo ''/music/x/d.ogg'' = Inr (None, Some ''Nothing'', Some ''Nobody'', 0)"
  "get_song_details demo ''/music/x/e.wav'' = Inr (Some ''Loose'', Some ''Untitled'', None, 3)"
  by (simp_all add: get_song_details_def demo_def demo_tags_def py_int_ex) (simp_all add: py_int_def)

lemma demo_lyrics_c:
  "get_lyrics demo (Some ''The Kinks'') (Some ''Waterloo Sunset'') (Some ''Something Else'') 211
     = Some (JStr ''[00:01.00] Dirty old river'')"
  by (simp add: get_lyrics_def demo_def demo_service_def)

lemma demo_lyrics_d:
  "get_lyrics demo (Some ''Nobody'') (Some ''Nothing'') None 0 = None"
  by (simp add: get_lyrics_def demo_def demo_service_def)

lemma demo_write_c:
  "write_lyrics demo ''/music/x/c.mp3'' ''/music/x/c.lrc'' (JStr ''[00:01.00] Dirty old river'')
     = (Found ''/music/x/c.mp3'',
        [OpenW ''/music/x/c.lrc'', WriteText ''/music/x/c.lrc'' ''[00:01.00] Dirty old river''])"
  by (simp add: write_lyrics_def demo_def)

lemma demo_c:
  "process_file demo ''/music/x/c.mp3'' [''/music/done'']
     = Inr (Found ''/music/x/c.mp3'',
            [Extract ''/music/x/c.mp3'',
             Lookup (Some ''The Kinks'', Some ''Waterloo Sunset'', Some ''Something Else'', 211),
             OpenW ''/music/x/c.lrc'',
             WriteText ''/music/x/c.lrc'' ''[00:01.00] Dirty old river''])"
  by (simp add: process_file_def demo_not_cached lrc_c demo_exists demo_details demo_lyrics_c
      demo_write_c Let_def del: is_in_cache.simps)

lemma demo_d:
  "process_file demo ''/music/x/d.ogg'' [''/music/done'']
     = Inr (Missing ''/music/x/d.ogg'',
            [Extract ''/music/x/d.ogg'', Lookup (Some ''Nobody'', Some ''Nothing'', None, 0)])"
  by (simp add: process_file_def demo_not_cached lrc_d demo_exists demo_details demo_lyrics_d
      del: is_in_cache.simps)

lemma demo_e:
  "process_file demo ''/music/x/e.wav'' [''/music/done'']
     = Inr (Missing ''/music/x/e.wav'', [Extract ''/music/x/e.wav''])"
  by (simp add: process_file_def demo_not_cached lrc_e demo_exists demo_details
      del: is_in_cache.simps)

lemma demo_run:
  "main_async demo =
     Inr \<lparr>final_world = demo_after,
          results =
            [(Cached ''/music/done/a.mp3'', []),
             (AlreadyExists ''/music/x/b.flac'', []),
             (Found ''/music/x/c.mp3'',
              [Extract ''/music/x/c.mp3'',
               Lookup (Some ''The Kinks'', Some ''Waterloo Sunset'', Some ''Something Else'', 211),
               OpenW ''/music/x/c.lrc'',
               WriteText ''/music/x/c.lrc'' ''[00:01.00] Dirty old river'']),
             (Missing ''/music/x/d.ogg'',
              [Extract ''/music/x/d.ogg'', Lookup (Some ''Nobody'', Some ''Nothing'', None, 0)]),
             (Missing ''/music/x/e.wav'', [Extract ''/music/x/e.wav''])],
          final_state = \<lparr>entries = [''/music/done'', ''/music/x/b.flac'', ''/music/x/c.mp3''],
                          Found_lyrics = 1, Missing_lyrics = 2\<rparr>,
          total_files = 5\<rparr>"
  by (simp add: main_async_def demo_files demo_load demo_a demo_b demo_c demo_d demo_e
      demo_after_def save_cache_def demo_save)

lemma clean_examples: "clean ''/music/done''" "clean ''/music/x/c.mp3''"
  by (simp_all add: clean_def LF_def CR_def isspace_def)

lemma sorted_set_example:
  "sorted_set [''/music/x/c.mp3'', ''/music/done'', ''/music/x/c.mp3'']
     = [''/music/done'', ''/music/x/c.mp3'']"
  by (simp add: sorted_set_def)

lemma demo_after_fields:
  "isdir demo_after = isdir demo" "walk demo_after = walk demo"
  "tinytag_get demo_after = tinytag_get demo" "client_get demo_after = client_get demo"
  "open_w demo_after = open_w demo" "write_text demo_after = write_text demo"
  by (simp_all add: demo_after_def)

lemma demo_after_exists:
  "\<not> exists demo_after ''/music/x/d.lrc''" "\<not> exists demo_after ''/music/x/e.lrc''"
  by (simp_all add: demo_after_def demo_def)

lemma clean_b: "clean ''/music/x/b.flac''"
  by (simp add: clean_def LF_def CR_def isspace_def)

lemma demo_after_load:
  "load_cache (cache_file demo_after) = Inr [''/music/done'', ''/music/x/b.flac'', ''/music/x/c.mp3'']"
proof -
  have "entries_of_text (cache_text [''/music/done'', ''/music/x/b.flac'', ''/music/x/c.mp3''])
      = sorted_set [''/music/done'', ''/music/x/b.flac'', ''/music/x/c.mp3'']"
    by (rule roundtrip_clean) (auto simp: clean_examples clean_b)
  also have "\<dots> = [''/music/done'', ''/music/x/b.flac'', ''/music/x/c.mp3'']"
    by (simp add: sorted_set_def)
  finally show ?thesis
    by (simp add: demo_after_def load_cache_Readable)
qed

lemma demo_after_in_cache:
  "is_in_cache demo_after ''/music/done/a.mp3''
     [''/music/done'', ''/music/x/b.flac'', ''/music/x/c.mp3''] = Inr True"
  "is_in_cache demo_after ''/music/x/b.flac''
     [''/music/done'', ''/music/x/b.flac'', ''/music/x/c.mp3''] = Inr True"
  "is_in_cache demo_after ''/music/x/c.mp3''
     [''/music/done'', ''/music/x/b.flac'', ''/music/x/c.mp3''] = Inr True"
  "is_in_cache demo_after ''/music/x/d.ogg''
     [''/music/done'', ''/music/x/b.flac'', ''/music/x/c.mp3''] = Inr False"
  "is_in_cache demo_after ''/music/x/e.wav''
     [''/music/done'', ''/music/x/b.flac'', ''/music/x/c.mp3''] = Inr False"
  by (simp_all add: demo_after_fields) (simp_all add: demo_def commonpath_def)

lemma demo_after_details:
  "get_song_details demo_after ''/music/x/d.ogg'' = Inr (None, Some ''Nothing'', Some ''Nobody'', 0)"
  "get_song_details demo_after ''/music/x/e.wav'' = Inr (Some ''Loose'', Some ''Untitled'', None, 3)"
  using demo_details(2,3) by (simp_all add: get_song_details_def demo_after_fields)

lemma demo_after_lyrics_d:
  "get_lyrics demo_after (Some ''Nobody'') (Some ''Nothing'') None 0 = None"
  using demo_lyrics_d by (simp add: get_lyrics_def demo_after_fields)

lemma demo_after_results:
  "process_file demo_after ''/music/done/a.mp3''
     [''/music/done'', ''/music/x/b.flac'', ''/music/x/c.mp3'']
   = Inr (Cached ''/music/done/a.mp3'', [])"
  "process_file demo_after ''/music/x/b.flac''
     [''/music/done'', ''/music/x/b.flac'', ''/music/x/c.mp3'']
   = Inr (Cached ''/music/x/b.flac'', [])"
  "process_file demo_after ''/music/x/c.mp3''
     [''/music/done'', ''/music/x/b.flac'', ''/music/x/c.mp3'']
   = Inr (Cached ''/music/x/c.mp3'', [])"
  "process_file demo_after ''/music/x/d.ogg''
     [''/music/done'', ''/music/x/b.flac'', ''/music/x/c.mp3'']
   = Inr (Missing ''/music/x/d.ogg'',
          [Extract ''/music/x/d.ogg'', Lookup (Some ''Nobody'', Some ''Nothing'', None, 0)])"
  "process_file demo_after ''/music/x/e.wav''
     [''/music/done'', ''/music/x/b.flac'', ''/music/x/c.mp3'']
   = Inr (Missing ''/music/x/e.wav'', [Extract ''/music/x/e.wav''])"
  by (simp_all add: process_file_def demo_after_in_cache lrc_d lrc_e demo_after_exists
      demo_after_details demo_after_lyrics_d del: is_in_cache.simps)

lemma demo_after_saved:
  "save_cache [''/music/done'', ''/music/x/b.flac'', ''/music/x/c.mp3''] demo_after = Inr demo_after"
  by (simp add: demo_after_def save_cache_def demo_def)

lemma demo_run_again:
  "main_async demo_after =
     Inr \<lparr>final_world = demo_after,
          results =
            [(Cached ''/music/done/a.mp3'', []),
             (Cached ''/music/x/b.flac'', []),
             (Cached ''/music/x/c.mp3'', []),
             (Missing ''/music/x/d.ogg'',
              [Extract ''/music/x/d.ogg'', Lookup (Some ''Nobody'', Some ''Nothing'', None, 0)]),
             (Missing ''/music/x/e.wav'', [Extract ''/music/x/e.wav''])],
          final_state = \<lparr>entries = [''/music/done'', ''/music/x/b.flac'', ''/music/x/c.mp3''],
                          Found_lyrics = 0, Missing_lyrics = 2\<rparr>,
          total_files = 5\<rparr>"
  by (simp add: main_async_def demo_after_fields(2) demo_files demo_after_load demo_after_results
      demo_after_saved del: is_in_cache.simps)

lemma crowd_run: "run crowd_world [] crowd (start crowd) crowd_schedule = Some crowd_state"
  by code_simp

lemma crowd_state_facts:
  "in_flight crowd_state = 20" "sem crowd_state = 0"
  "pcs crowd_state ! 20 = Waiting" "pcs crowd_state ! 21 = Checking"
  "step crowd_world [] crowd crowd_state 20 = None"
  "step crowd_world [] crowd crowd_state 21
     = Some \<lparr>pcs = replicate 20 Looking_up @ [Waiting, Extracting], sem = 0\<rparr>"
  by code_simp+

section \<open>Properties of the file processor\<close>

text \<open>
  Claim C1 at two inputs where the code departs from it. The path \<open>/music/x/c.mp3\<close> is
  in the cache verbatim, after the entry \<open>.\<close>, a directory written as a relative path: the
  specification's containment test holds, and \<open>process_file\<close> raises the \<open>ValueError\<close> of
  \<open>commonpath\<close> instead of returning \<open>Cached\<close>. The path \<open>/music/old/b.mp3\<close> lies
  inside the cached directory \<open>/music/old/\<close>: the containment test holds, \<open>is_in_cache\<close>
  answers false, and \<open>process_file\<close> goes on to the tag extraction. Where the directory
  entries are in normal form, \<open>process_file_cached_by_spec\<close> above gives \<open>Cached\<close> with
  no action.
\<close>

theorem C1_contained_path_not_cached:
  "spec_Contains demo ''/music/x/c.mp3'' [''.'', ''/music/x/c.mp3'']
   \<and> process_file demo ''/music/x/c.mp3'' [''.'', ''/music/x/c.mp3''] = Inl ValueError
   \<and> spec_Contains demo ''/music/old/b.mp3'' [''/music/old/'']
   \<and> process_file demo ''/music/old/b.mp3'' [''/music/old/'']
       = Inr (Error ''/music/old/b.mp3'' TinyTagException, [Extract ''/music/old/b.mp3''])"
proof -
  have a: "spec_Contains demo ''/music/x/c.mp3'' [''.'', ''/music/x/c.mp3'']"
    by (simp add: spec_Contains_def)
  have b: "is_in_cache demo ''/music/x/c.mp3'' [''.'', ''/music/x/c.mp3''] = Inl ValueError"
    by (simp add: demo_def commonpath_def)
  have c: "spec_Contains demo ''/music/old/b.mp3'' [''/music/old/'']"
    by (simp add: spec_Contains_def lexically_inside_def components_def) (simp add: demo_def)
  have d: "is_in_cache demo ''/music/old/b.mp3'' [''/music/old/''] = Inr False"
    by (simp add: demo_def commonpath_def)
  have e: "lrc_path ''/music/old/b.mp3'' = ''/music/old/b.lrc''"
    by (simp add: lrc_path_def splitext_def rfind_def)
  have f: "\<not> exists demo ''/music/old/b.lrc''"
    by (simp add: demo_def)
  have g: "get_song_details demo ''/music/old/b.mp3'' = Inl TinyTagException"
    by (simp add: get_song_details_def demo_def demo_tags_def)
  have "process_file demo ''/music/x/c.mp3'' [''.'', ''/music/x/c.mp3''] = Inl ValueError"
    using b by (simp add: process_file_def del: is_in_cache.simps)
  moreover have "process_file demo ''/music/old/b.mp3'' [''/music/old/'']
       = Inr (Error ''/music/old/b.mp3'' TinyTagException, [Extract ''/music/old/b.mp3''])"
    using d e f g by (simp add: process_file_def del: is_in_cache.simps)
  ultimately show ?thesis
    using a c by simp
qed

text \<open>
  Claim C2 at two inputs where the code departs from it. The entry \<open>/music/old/\<close> is a
  directory and the path \<open>/music/old/b.mp3\<close> lies inside it, segment by segment, so the
  specification's test holds; \<open>commonpath\<close> returns \<open>/music/old\<close>, which is not the entry
  string, and \<open>is_in_cache\<close> answers false. The entry \<open>.\<close> is a directory written as a
  relative path; for an absolute path \<open>commonpath\<close> raises, and so does \<open>is_in_cache\<close>.
  Segment boundaries are respected: \<open>/music/x\<close> does not contain \<open>/music/xy/c.mp3\<close>;
  and \<open>is_in_cache_meets_spec\<close> above shows that the code and the claim agree on
  directory entries in normal form.
\<close>

theorem C2_directory_entry_not_matched:
  "isdir demo ''/music/old/''
   \<and> spec_Contains demo ''/music/old/b.mp3'' [''/music/old/'']
   \<and> commonpath [''/music/old/b.mp3'', ''/music/old/''] = Inr ''/music/old''
   \<and> is_in_cache demo ''/music/old/b.mp3'' [''/music/old/''] = Inr False
   \<and> isdir demo ''.''
   \<and> is_in_cache demo ''/music/x/c.mp3'' [''.''] = Inl ValueError
   \<and> is_in_cache demo ''/music/xy/c.mp3'' [''/music/x''] = Inr False
   \<and> is_in_cache demo ''/music/x/c.mp3'' [''/music/x''] = Inr True"
  by (simp add: spec_Contains_def lexically_inside_def components_def commonpath_def)
     (simp add: demo_def)

section \<open>Properties of the cache store\<close>

text \<open>
  Claim C5, as amended. For a list of entries that the text format can hold (each entry
  not empty, without a line break, without white space at either end), and a cache file
  that can be written, \<open>save_cache\<close> returns, and loading the file again gives the sorted
  list without duplicates of the same set of entries. \<open>save_cache\<close> replaces the file,
  whatever it held, by one line for each entry.
\<close>

theorem C5_roundtrip_of_clean_entries:
  assumes "list_all clean x" and "cache_save_error w = None"
  shows "\<exists>w'. save_cache x w = Inr w'
    \<and> load_cache (cache_file w') = Inr (sorted_set x)
    \<and> sorted (sorted_set x) \<and> distinct (sorted_set x) \<and> set (sorted_set x) = set x
    \<and> cache_file w' = Readable (cache_text x)
    \<and> readlines (cache_text x) = map (\<lambda>item. item @ [LF]) (sorted_set x)"
proof -
  let ?w' = "w\<lparr>cache_file := Readable (cache_text x)\<rparr>"
  have cl: "\<And>item. item \<in> set x \<Longrightarrow> clean item"
    using assms(1) by (simp add: list_all_iff)
  have saved: "save_cache x w = Inr ?w'"
    using assms(2) by (simp add: save_cache_def)
  have loaded: "load_cache (cache_file ?w') = Inr (sorted_set x)"
    using roundtrip_clean [of x] cl by (simp add: load_cache_Readable)
  have lines: "readlines (cache_text x) = map (\<lambda>item. item @ [LF]) (sorted_set x)"
    unfolding cache_text_def
  proof (rule readlines_cache_lines)
    fix y assume "y \<in> set (sorted_set x)"
    then have "clean y" using cl by (simp add: set_sorted_set)
    then show "LF \<notin> set y" by (simp add: clean_def)
  qed
  have "save_cache x w = Inr ?w'
    \<and> load_cache (cache_file ?w') = Inr (sorted_set x)
    \<and> sorted (sorted_set x) \<and> distinct (sorted_set x) \<and> set (sorted_set x) = set x
    \<and> cache_file ?w' = Readable (cache_text x)
    \<and> readlines (cache_text x) = map (\<lambda>item. item @ [LF]) (sorted_set x)"
    using saved loaded lines
    by (simp add: sorted_sorted_set distinct_sorted_set set_sorted_set)
  then show ?thesis ..
qed

theorem C5_roundtrip_of_clean_entries_witness:
  "list_all clean [''/music/x/c.mp3'', ''/music/done'', ''/music/x/c.mp3'']
   \<and> cache_save_error demo = None
   \<and> (\<exists>w'. save_cache [''/music/x/c.mp3'', ''/music/done'', ''/music/x/c.mp3''] demo = Inr w'
         \<and> load_cache (cache_file w') = Inr [''/music/done'', ''/music/x/c.mp3''])"
proof -
  have a: "list_all clean [''/music/x/c.mp3'', ''/music/done'', ''/music/x/c.mp3'']"
    by (simp add: clean_examples)
  obtain w' where "save_cache [''/music/x/c.mp3'', ''/music/done'', ''/music/x/c.mp3''] demo = Inr w'"
    and "load_cache (cache_file w')
       = Inr (sorted_set [''/music/x/c.mp3'', ''/music/done'', ''/music/x/c.mp3''])"
    using C5_roundtrip_of_clean_entries [OF a demo_save] by blast
  then have "\<exists>w'. save_cache [''/music/x/c.mp3'', ''/music/done'', ''/music/x/c.mp3''] demo = Inr w'
         \<and> load_cache (cache_file w') = Inr [''/music/done'', ''/music/x/c.mp3'']"
    by (auto simp: sorted_set_example)
  with a demo_save show ?thesis
    by simp
qed

text \<open>
  Claim C5 as stated fails for an entry that starts with a space: \<open>save_cache\<close> writes
  it as it is, and \<open>load_cache\<close> strips the line, so a different entry comes back.
\<close>

theorem C5_counterexample:
  "save_cache ['' a.mp3''] demo = Inr (demo\<lparr>cache_file := Readable (cache_text ['' a.mp3''])\<rparr>)
   \<and> load_cache (Readable (cache_text ['' a.mp3''])) = Inr [''a.mp3'']
   \<and> sorted_set ['' a.mp3''] = ['' a.mp3'']"
proof -
  have "load_cache (Readable (cache_text ['' a.mp3''])) = Inr [''a.mp3'']"
    by (simp add: load_cache_def cache_text_def sorted_set_def LF_def CR_def strip_def isspace_def)
  moreover have "sorted_set ['' a.mp3''] = ['' a.mp3'']"
    by (simp add: sorted_set_def)
  ultimately show ?thesis
    by (simp add: save_cache_def demo_save)
qed

section \<open>Properties of two runs in a row\<close>

text \<open>
  Claim C3, as amended. When a run completes and a second run, on the file system and the
  cache file that the first one left, completes as well, every file that the first run
  resolved as \<open>Cached\<close>, \<open>AlreadyExists\<close> or \<open>Found\<close> is resolved by the second run as
  \<open>Cached\<close> or \<open>AlreadyExists\<close>, with no action at all and so no lookup. Nothing is said
  of the files that the first run left \<open>Missing\<close> or in \<open>Error\<close>: they are not added to
  the cache.
\<close>

theorem C3_resolved_files_stay_resolved:
  assumes "main_async w = Inr r1"
    and "main_async (final_world r1) = Inr r2"
    and "i < length (results r1)"
    and "fst (results r1 ! i) = Cached p \<or> fst (results r1 ! i) = AlreadyExists p
         \<or> fst (results r1 ! i) = Found p"
  shows "length (results r2) = length (results r1)
    \<and> (results r2 ! i = (Cached p, []) \<or> results r2 ! i = (AlreadyExists p, []))"
proof -
  let ?files = "collect_audio_files (walk w)"
  let ?w1 = "final_world r1"
  let ?evs = "concat (map snd (results r1))"
  from assms(1) obtain l1 where l1: "load_cache (cache_file w) = Inr l1"
    and g1: "gather (map (\<lambda>fp. process_file w fp l1) ?files) = Inr (results r1)"
    and st1: "final_state r1 = foldl consume \<lparr>entries = l1, Found_lyrics = 0, Missing_lyrics = 0\<rparr>
           (map fst (results r1))"
    and fw1: "?w1 = (foldl apply_event w ?evs)
           \<lparr>cache_file := Readable (cache_text (entries (final_state r1)))\<rparr>"
    by (rule main_async_Inr)
  have walk1: "walk ?w1 = walk w" and isdir1: "isdir ?w1 = isdir w"
    by (simp_all add: fw1 [simplified] apply_events_fields)
  have exists1: "\<And>q. exists ?w1 q = (exists w q \<or> OpenW q \<in> set ?evs)"
    by (simp add: fw1 [simplified] apply_events_exists)
  have cache1: "cache_file ?w1 = Readable (cache_text (entries (final_state r1)))"
    by (simp add: fw1 [simplified])
  from assms(2) obtain l2 where l2: "load_cache (cache_file ?w1) = Inr l2"
    and g2: "gather (map (\<lambda>fp. process_file ?w1 fp l2) (collect_audio_files (walk ?w1)))
           = Inr (results r2)"
    by (rule main_async_Inr)
  from l2 cache1 have l2_eq: "l2 = entries_of_text (cache_text (entries (final_state r1)))"
    by (simp add: load_cache_Readable)
  from gather_map_Inr [OF g1] have len1: "length (results r1) = length ?files"
    and nth1: "\<And>j. j < length ?files \<Longrightarrow> process_file w (?files ! j) l1 = Inr (results r1 ! j)"
    by simp_all
  from gather_map_Inr [OF g2] walk1 have len2: "length (results r2) = length ?files"
    and nth2: "\<And>j. j < length ?files \<Longrightarrow> process_file ?w1 (?files ! j) l2 = Inr (results r2 ! j)"
    by simp_all
  let ?q = "?files ! i"
  have i: "i < length ?files"
    using assms(3) len1 by simp
  obtain out evs where res: "results r1 ! i = (out, evs)"
    by (cases "results r1 ! i")
  have pf1: "process_file w ?q l1 = Inr (out, evs)"
    using nth1 [OF i] res by simp
  have pf2: "process_file ?w1 ?q l2 = Inr (results r2 ! i)"
    using nth2 [OF i] .
  have evs_sub: "set evs \<subseteq> set ?evs"
  proof -
    have "results r1 ! i \<in> set (results r1)"
      using assms(3) by (rule nth_mem)
    then have "snd (results r1 ! i) \<in> set (map snd (results r1))"
      by simp
    then show ?thesis
      using res by auto
  qed
  have keep: "\<And>e. e \<in> set l1 \<Longrightarrow> e \<in> set l2"
  proof -
    fix e assume e: "e \<in> set l1"
    then have "clean e"
      using l1 by (rule load_cache_all_clean [rotated])
    moreover have "e \<in> set (entries (final_state r1))"
      using e entries_foldl_consume_mono
        [of "\<lparr>entries = l1, Found_lyrics = 0, Missing_lyrics = 0\<rparr>" "map fst (results r1)"]
      unfolding st1 by auto
    ultimately show "e \<in> set l2"
      unfolding l2_eq by (rule clean_survives [rotated])
  qed
  from assms(4) res have "out = Cached p \<or> out = AlreadyExists p \<or> out = Found p"
    by simp
  then have "p = ?q \<and> (exists ?w1 (lrc_path ?q) \<or> (\<exists>e\<in>set l2. covers ?w1 ?q e))"
  proof (elim disjE)
    assume "out = Cached p"
    with pf1 have p: "p = ?q" and c: "is_in_cache w ?q l1 = Inr True"
      using process_file_Cached_inv [of w ?q l1 p evs] by simp_all
    from is_in_cache_True_covers [OF c] obtain e where "e \<in> set l1" and "covers w ?q e"
      by blast
    then have "e \<in> set l2" and "covers ?w1 ?q e"
      using keep covers_isdir [OF isdir1] by simp_all
    with p show ?thesis by blast
  next
    assume "out = AlreadyExists p"
    with pf1 have "p = ?q" and "exists w (lrc_path ?q)"
      using process_file_AlreadyExists_inv [of w ?q l1 p evs] by simp_all
    then show ?thesis
      using exists1 by simp
  next
    assume "out = Found p"
    with pf1 have "p = ?q" and "OpenW (lrc_path ?q) \<in> set evs"
      using process_file_Found_inv [of w ?q l1 p evs] by simp_all
    then show ?thesis
      using exists1 evs_sub by auto
  qed
  then have "results r2 ! i = (Cached p, []) \<or> results r2 ! i = (AlreadyExists p, [])"
    using process_file_resolved_again [OF pf2] by simp
  then show ?thesis
    using len1 len2 by simp
qed

theorem C3_resolved_files_stay_resolved_witness:
  "main_async demo = Inr (projr (main_async demo))
   \<and> main_async (final_world (projr (main_async demo)))
       = Inr (projr (main_async (final_world (projr (main_async demo)))))
   \<and> (2::nat) < length (results (projr (main_async demo)))
   \<and> fst (results (projr (main_async demo)) ! 2) = Found ''/music/x/c.mp3''
   \<and> results (projr (main_async (final_world (projr (main_async demo))))) ! 2
       = (Cached ''/music/x/c.mp3'', [])"
proof -
  let ?r1 = "projr (main_async demo)"
  let ?r2 = "projr (main_async (final_world ?r1))"
  have fw: "final_world ?r1 = demo_after"
    by (simp add: demo_run)
  have a: "main_async demo = Inr ?r1"
    by (simp add: demo_run)
  have b: "main_async (final_world ?r1) = Inr ?r2"
    unfolding fw by (simp add: demo_run_again)
  have c: "(2::nat) < length (results ?r1)"
    by (simp add: demo_run)
  have d: "fst (results ?r1 ! 2) = Found ''/music/x/c.mp3''"
    by (simp add: demo_run)
  have e: "fst (results ?r1 ! 2) = Cached ''/music/x/c.mp3''
      \<or> fst (results ?r1 ! 2) = AlreadyExists ''/music/x/c.mp3''
      \<or> fst (results ?r1 ! 2) = Found ''/music/x/c.mp3''"
    using d by simp
  have f: "results ?r2 ! 2 = (Cached ''/music/x/c.mp3'', [])"
    unfolding fw by (simp add: demo_run_again)
  show ?thesis
    using a b c d f C3_resolved_files_stay_resolved [OF a b c e] by simp
qed

text \<open>
  Claim C3 as stated fails on the sample library: the first run looks the fourth file up
  and finds no lyrics, saves a cache without it, and the second run looks it up again.
\<close>

theorem C3_counterexample:
  "map_sum id final_world (main_async demo) = Inr demo_after
   \<and> map_sum id results (main_async demo_after)
       = Inr [(Cached ''/music/done/a.mp3'', []),
              (Cached ''/music/x/b.flac'', []),
              (Cached ''/music/x/c.mp3'', []),
              (Missing ''/music/x/d.ogg'',
               [Extract ''/music/x/d.ogg'', Lookup (Some ''Nobody'', Some ''Nothing'', None, 0)]),
              (Missing ''/music/x/e.wav'', [Extract ''/music/x/e.wav''])]"
  by (simp add: demo_run demo_run_again)



text \<open>
  Claim C6, as amended. For a file that reaches the lookup: when the lookup yields no JSON
  object (\<open>client.get\<close> raises a transport error or a timeout, the status is not 200, or
  the body of a 200 response is not JSON or not a JSON object), \<open>get_lyrics\<close> returns
  \<open>None\<close> instead of raising, and the file is processed to \<open>Missing\<close> with nothing written,
  the result obtained from a service that answers with a genuine no-match. A 200 response
  with a JSON object whose \<open>syncedLyrics\<close> value is truthy and not a string is not taken
  as a failed lookup: \<open>get_lyrics\<close> returns that value, the output file is opened, the
  write raises \<open>TypeError\<close>, and the file is processed to \<open>Error\<close>.
\<close>

theorem C6_lookup_without_object_is_missing:
  assumes "is_in_cache w p cache = Inr False"
    and "\<not> exists w (lrc_path p)"
    and "get_song_details w p = Inr (al, ti, ar, d)"
    and "\<not> falsy ar" and "\<not> falsy ti"
  shows "(no_json_object (client_get w (ar, ti, al, d)) \<longrightarrow>
            get_lyrics w ar ti al d = None
            \<and> process_file w p cache = Inr (Missing p, [Extract p, Lookup (ar, ti, al, d)])
            \<and> process_file (w\<lparr>client_get := no_match\<rparr>) p cache = process_file w p cache)
    \<and> (\<forall>r kvs v. client_get w (ar, ti, al, d) = Inr r \<longrightarrow> status_code r = 200
            \<longrightarrow> json_body r = Inr (JObj kvs) \<longrightarrow> map_of kvs ''syncedLyrics'' = Some v
            \<longrightarrow> truthy v \<longrightarrow> (\<forall>s. v \<noteq> JStr s) \<longrightarrow> open_w w (lrc_path p) = None
            \<longrightarrow> get_lyrics w ar ti al d = Some v
                \<and> process_file w p cache
                    = Inr (Error p TypeError,
                           [Extract p, Lookup (ar, ti, al, d), OpenW (lrc_path p)]))"
proof (intro conjI allI impI)
  let ?w = "w\<lparr>client_get := no_match\<rparr>"
  assume failed: "no_json_object (client_get w (ar, ti, al, d))"
  then show none: "get_lyrics w ar ti al d = None"
    by (rule get_lyrics_failed)
  with assms show here: "process_file w p cache = Inr (Missing p, [Extract p, Lookup (ar, ti, al, d)])"
    by (rule process_file_lookup_none)
  have a: "is_in_cache ?w p cache = Inr False"
    using assms(1) is_in_cache_isdir [of ?w w p cache] by simp
  have b: "\<not> exists ?w (lrc_path p)"
    using assms(2) by simp
  have c: "get_song_details ?w p = Inr (al, ti, ar, d)"
    using assms(3) get_song_details_tags [of ?w w p] by simp
  have "process_file ?w p cache = Inr (Missing p, [Extract p, Lookup (ar, ti, al, d)])"
    using a b c assms(4,5) get_lyrics_no_match by (rule process_file_lookup_none)
  with here show "process_file ?w p cache = process_file w p cache"
    by simp
next
  fix r kvs v
  assume r: "client_get w (ar, ti, al, d) = Inr r" "status_code r = 200"
    "json_body r = Inr (JObj kvs)" "map_of kvs ''syncedLyrics'' = Some v" "truthy v"
    and v: "\<forall>s. v \<noteq> JStr s" and o: "open_w w (lrc_path p) = None"
  from r show gl: "get_lyrics w ar ti al d = Some v"
    by (simp add: get_lyrics_def)
  have "write_lyrics w p (lrc_path p) v = (Error p TypeError, [OpenW (lrc_path p)])"
    using v o by (cases v) (simp_all add: write_lyrics_def)
  with assms gl show "process_file w p cache
      = Inr (Error p TypeError, [Extract p, Lookup (ar, ti, al, d), OpenW (lrc_path p)])"
    by (simp add: process_file_def)
qed

theorem C6_lookup_without_object_is_missing_witness:
  "no_json_object (client_get (demo\<lparr>client_get := timing_out\<rparr>)
       (Some ''The Kinks'', Some ''Waterloo Sunset'', Some ''Something Else'', 211))
   \<and> get_lyrics (demo\<lparr>client_get := timing_out\<rparr>)
         (Some ''The Kinks'') (Some ''Waterloo Sunset'') (Some ''Something Else'') 211 = None
   \<and> process_file (demo\<lparr>client_get := timing_out\<rparr>) ''/music/x/c.mp3'' [''/music/done'']
       = Inr (Missing ''/music/x/c.mp3'',
              [Extract ''/music/x/c.mp3'',
               Lookup (Some ''The Kinks'', Some ''Waterloo Sunset'', Some ''Something Else'', 211)])
   \<and> client_get (demo\<lparr>client_get := numeric_lyrics\<rparr>)
         (Some ''The Kinks'', Some ''Waterloo Sunset'', Some ''Something Else'', 211)
       = Inr \<lparr>status_code = 200, json_body = Inr (JObj [(''syncedLyrics'', JNum 5)])\<rparr>
   \<and> truthy (JNum 5)
   \<and> open_w (demo\<lparr>client_get := numeric_lyrics\<rparr>) (lrc_path ''/music/x/c.mp3'') = None
   \<and> process_file (demo\<lparr>client_get := numeric_lyrics\<rparr>) ''/music/x/c.mp3'' [''/music/done'']
       = Inr (Error ''/music/x/c.mp3'' TypeError,
              [Extract ''/music/x/c.mp3'',
               Lookup (Some ''The Kinks'', Some ''Waterloo Sunset'', Some ''Something Else'', 211),
               OpenW ''/music/x/c.lrc''])"
proof -
  let ?q = "(Some ''The Kinks'', Some ''Waterloo Sunset'', Some ''Something Else'', 211 :: int)"
  let ?w = "demo\<lparr>client_get := timing_out\<rparr>"
  let ?n = "demo\<lparr>client_get := numeric_lyrics\<rparr>"
  let ?r = "\<lparr>status_code = 200, json_body = Inr (JObj [(''syncedLyrics'', JNum 5)])\<rparr>"
  have a: "is_in_cache ?w ''/music/x/c.mp3'' [''/music/done''] = Inr False"
    using demo_not_cached(2) is_in_cache_isdir [of ?w demo] by (simp del: is_in_cache.simps)
  have b: "\<not> exists ?w (lrc_path ''/music/x/c.mp3'')"
    by (simp add: lrc_c demo_exists)
  have c: "get_song_details ?w ''/music/x/c.mp3''
     = Inr (Some ''Something Else'', Some ''Waterloo Sunset'', Some ''The Kinks'', 211)"
    using demo_details(1) get_song_details_tags [of ?w demo] by simp
  have a': "is_in_cache ?n ''/music/x/c.mp3'' [''/music/done''] = Inr False"
    using demo_not_cached(2) is_in_cache_isdir [of ?n demo] by (simp del: is_in_cache.simps)
  have b': "\<not> exists ?n (lrc_path ''/music/x/c.mp3'')"
    by (simp add: lrc_c demo_exists)
  have c': "get_song_details ?n ''/music/x/c.mp3''
     = Inr (Some ''Something Else'', Some ''Waterloo Sunset'', Some ''The Kinks'', 211)"
    using demo_details(1) get_song_details_tags [of ?n demo] by simp
  have d: "\<not> falsy (Some ''The Kinks'')" and e: "\<not> falsy (Some ''Waterloo Sunset'')"
    by simp_all
  have f: "no_json_object (client_get ?w ?q)"
    by (simp add: no_json_object_def timing_out_def)
  have g: "client_get ?n ?q = Inr ?r"
    by (simp add: numeric_lyrics_def)
  have h: "open_w ?n (lrc_path ''/music/x/c.mp3'') = None"
    by (simp add: demo_def)
  have i: "map_of [(''syncedLyrics'', JNum 5)] ''syncedLyrics'' = Some (JNum 5)"
    by simp
  have first: "get_lyrics ?w (Some ''The Kinks'') (Some ''Waterloo Sunset'') (Some ''Something Else'') 211
        = None
      \<and> process_file ?w ''/music/x/c.mp3'' [''/music/done'']
        = Inr (Missing ''/music/x/c.mp3'', [Extract ''/music/x/c.mp3'', Lookup ?q])"
    using C6_lookup_without_object_is_missing [OF a b c d e] f by blast
  have "process_file ?n ''/music/x/c.mp3'' [''/music/done'']
      = Inr (Error ''/music/x/c.mp3'' TypeError,
             [Extract ''/music/x/c.mp3'', Lookup ?q, OpenW (lrc_path ''/music/x/c.mp3'')])"
    using C6_lookup_without_object_is_missing [OF a' b' c' d e] g h i by fastforce
  then have second: "process_file ?n ''/music/x/c.mp3'' [''/music/done'']
      = Inr (Error ''/music/x/c.mp3'' TypeError,
             [Extract ''/music/x/c.mp3'', Lookup ?q, OpenW ''/music/x/c.lrc''])"
    by (simp add: lrc_c)
  show ?thesis
    using f first g h second by simp
qed

text \<open>
  Claim C6 as stated fails for a malformed body that is a JSON object: the service answers
  200 with a number where lyrics are expected, \<open>get_lyrics\<close> returns the number, the
  output file is created, the write raises, and the outcome is \<open>Error\<close>, not \<open>Missing\<close>.
\<close>

theorem C6_counterexample:
  "client_get (demo\<lparr>client_get := numeric_lyrics\<rparr>)
       (Some ''The Kinks'', Some ''Waterloo Sunset'', Some ''Something Else'', 211)
     = Inr \<lparr>status_code = 200, json_body = Inr (JObj [(''syncedLyrics'', JNum 5)])\<rparr>
   \<and> get_lyrics (demo\<lparr>client_get := numeric_lyrics\<rparr>)
         (Some ''The Kinks'') (Some ''Waterloo Sunset'') (Some ''Something Else'') 211
       = Some (JNum 5)
   \<and> process_file (demo\<lparr>client_get := numeric_lyrics\<rparr>) ''/music/x/c.mp3'' [''/music/done'']
       = Inr (Error ''/music/x/c.mp3'' TypeError,
              [Extract ''/music/x/c.mp3'',
               Lookup (Some ''The Kinks'', Some ''Waterloo Sunset'', Some ''Something Else'', 211),
               OpenW ''/music/x/c.lrc''])"
proof -
  let ?n = "demo\<lparr>client_get := numeric_lyrics\<rparr>"
  have a: "is_in_cache ?n ''/music/x/c.mp3'' [''/music/done''] = Inr False"
    using demo_not_cached(2) is_in_cache_isdir [of ?n demo] by (simp del: is_in_cache.simps)
  have b: "\<not> exists ?n ''/music/x/c.lrc''"
    by (simp add: demo_exists)
  have c: "get_song_details ?n ''/music/x/c.mp3''
     = Inr (Some ''Something Else'', Some ''Waterloo Sunset'', Some ''The Kinks'', 211)"
    using demo_details(1) get_song_details_tags [of ?n demo] by simp
  have d: "get_lyrics ?n (Some ''The Kinks'') (Some ''Waterloo Sunset'') (Some ''Something Else'') 211
      = Some (JNum 5)"
    by (simp add: get_lyrics_def numeric_lyrics_def)
  have e: "write_lyrics ?n ''/music/x/c.mp3'' ''/music/x/c.lrc'' (JNum 5)
      = (Error ''/music/x/c.mp3'' TypeError, [OpenW ''/music/x/c.lrc''])"
    by (simp add: write_lyrics_def) (simp add: demo_def)
  have "process_file ?n ''/music/x/c.mp3'' [''/music/done'']
       = Inr (Error ''/music/x/c.mp3'' TypeError,
              [Extract ''/music/x/c.mp3'',
               Lookup (Some ''The Kinks'', Some ''Waterloo Sunset'', Some ''Something Else'', 211),
               OpenW ''/music/x/c.lrc''])"
    using a b c d e by (simp add: process_file_def lrc_c del: is_in_cache.simps)
  with d show ?thesis
    by (simp add: numeric_lyrics_def)
qed

text \<open>
  Claim C7, as amended. For a file that reaches the tag reader and whose tags are read:
  when the duration tag is present, an empty or missing artist or title gives \<open>Missing\<close>
  with no lookup, and otherwise the lookup is made, whatever the album (missing or empty)
  and whatever the number of seconds (zero included); when the duration tag is missing,
  \<open>get_song_details\<close> raises and the outcome is \<open>Error\<close>, with no lookup.
\<close>

theorem C7_required_tags:
  assumes "is_in_cache w p cache = Inr False"
    and "\<not> exists w (lrc_path p)"
    and "tinytag_get w p = Inr a"
  shows "(duration a = None \<longrightarrow> process_file w p cache = Inr (Error p TypeError, [Extract p]))
    \<and> (\<forall>d. duration a = Some d \<longrightarrow> falsy (artist a) \<or> falsy (title a)
          \<longrightarrow> process_file w p cache = Inr (Missing p, [Extract p]))
    \<and> (\<forall>d. duration a = Some d \<longrightarrow> \<not> falsy (artist a) \<longrightarrow> \<not> falsy (title a)
          \<longrightarrow> (\<exists>res evs. process_file w p cache
                 = Inr (res, Extract p # Lookup (artist a, title a, album a, py_int d) # evs)))"
proof (intro conjI allI impI)
  assume "duration a = None"
  then have "get_song_details w p = Inl TypeError"
    using assms(3) by (simp add: get_song_details_def)
  then show "process_file w p cache = Inr (Error p TypeError, [Extract p])"
    using assms(1,2) by (simp add: process_file_def)
next
  fix d
  assume "duration a = Some d" and "falsy (artist a) \<or> falsy (title a)"
  then show "process_file w p cache = Inr (Missing p, [Extract p])"
    using assms by (simp add: process_file_def get_song_details_def)
next
  fix d
  assume d: "duration a = Some d" and ar: "\<not> falsy (artist a)" and ti: "\<not> falsy (title a)"
  have det: "get_song_details w p = Inr (album a, title a, artist a, py_int d)"
    using assms(3) d by (simp add: get_song_details_def)
  show "\<exists>res evs. process_file w p cache
      = Inr (res, Extract p # Lookup (artist a, title a, album a, py_int d) # evs)"
  proof (cases "get_lyrics w (artist a) (title a) (album a) (py_int d)")
    case None
    then show ?thesis
      using assms(1,2) det ar ti by (simp add: process_file_def)
  next
    case (Some lyrics)
    then show ?thesis
      using assms(1,2) det ar ti by (simp add: process_file_def split: prod.splits)
  qed
qed

theorem C7_required_tags_witness:
  "process_file demo ''/music/x/e.wav'' [''/music/done'']
     = Inr (Missing ''/music/x/e.wav'', [Extract ''/music/x/e.wav''])
   \<and> (\<exists>res evs. process_file demo ''/music/x/d.ogg'' [''/music/done'']
         = Inr (res, Extract ''/music/x/d.ogg''
                  # Lookup (Some ''Nobody'', Some ''Nothing'', None, 0) # evs))
   \<and> process_file demo_no_duration ''/music/x/c.mp3'' [''/music/done'']
       = Inr (Error ''/music/x/c.mp3'' TypeError, [Extract ''/music/x/c.mp3''])"
proof -
  have te: "tinytag_get demo ''/music/x/e.wav''
      = Inr \<lparr>album = Some ''Loose'', title = Some ''Untitled'', artist = None, duration = Some 3\<rparr>"
    by (simp add: demo_def demo_tags_def)
  have xe: "\<not> exists demo (lrc_path ''/music/x/e.wav'')"
    by (simp add: lrc_e demo_exists)
  have td: "tinytag_get demo ''/music/x/d.ogg''
      = Inr \<lparr>album = None, title = Some ''Nothing'', artist = Some ''Nobody'', duration = Some 0\<rparr>"
    by (simp add: demo_def demo_tags_def)
  have xd: "\<not> exists demo (lrc_path ''/music/x/d.ogg'')"
    by (simp add: lrc_d demo_exists)
  have tc: "tinytag_get demo_no_duration ''/music/x/c.mp3''
      = Inr \<lparr>album = Some ''Something Else'', title = Some ''Waterloo Sunset'',
             artist = Some ''The Kinks'', duration = None\<rparr>"
    by (simp add: demo_no_duration_def no_duration_tags_def)
  have xc: "\<not> exists demo_no_duration (lrc_path ''/music/x/c.mp3'')"
    by (simp add: lrc_c demo_exists demo_no_duration_def)
  have cc: "is_in_cache demo_no_duration ''/music/x/c.mp3'' [''/music/done''] = Inr False"
    using demo_not_cached(2) is_in_cache_isdir [of demo_no_duration demo]
    by (simp add: demo_no_duration_def del: is_in_cache.simps)
  have z: "py_int 0 = 0"
    by (simp add: py_int_def)
  show ?thesis
    using C7_required_tags [OF demo_not_cached(4) xe te]
      C7_required_tags [OF demo_not_cached(3) xd td]
      C7_required_tags [OF cc xc tc] z
    by simp
qed

text \<open>
  Claim C7 as stated fails where the tags carry no duration. With an artist and a title,
  \<open>int(None)\<close> raises inside \<open>get_song_details\<close>, the outcome is \<open>Error\<close>, and no lookup is
  made; with no artist either, the outcome is \<open>Error\<close> as well, not \<open>Missing\<close>.
\<close>

theorem C7_counterexample:
  "tinytag_get demo_no_duration ''/music/x/c.mp3''
     = Inr \<lparr>album = Some ''Something Else'', title = Some ''Waterloo Sunset'',
            artist = Some ''The Kinks'', duration = None\<rparr>
   \<and> process_file demo_no_duration ''/music/x/c.mp3'' [''/music/done'']
       = Inr (Error ''/music/x/c.mp3'' TypeError, [Extract ''/music/x/c.mp3''])
   \<and> tinytag_get demo_no_tags ''/music/x/c.mp3''
       = Inr \<lparr>album = None, title = None, artist = None, duration = None\<rparr>
   \<and> process_file demo_no_tags ''/music/x/c.mp3'' [''/music/done'']
       = Inr (Error ''/music/x/c.mp3'' TypeError, [Extract ''/music/x/c.mp3''])"
proof -
  have a: "is_in_cache demo_no_duration ''/music/x/c.mp3'' [''/music/done''] = Inr False"
    using demo_not_cached(2) is_in_cache_isdir [of demo_no_duration demo]
    by (simp add: demo_no_duration_def del: is_in_cache.simps)
  have b: "\<not> exists demo_no_duration (lrc_path ''/music/x/c.mp3'')"
    by (simp add: lrc_c demo_exists demo_no_duration_def)
  have c: "get_song_details demo_no_duration ''/music/x/c.mp3'' = Inl TypeError"
    by (simp add: get_song_details_def demo_no_duration_def no_duration_tags_def)
  have d: "is_in_cache demo_no_tags ''/music/x/c.mp3'' [''/music/done''] = Inr False"
    using demo_not_cached(2) is_in_cache_isdir [of demo_no_tags demo]
    by (simp add: demo_no_tags_def del: is_in_cache.simps)
  have e: "\<not> exists demo_no_tags (lrc_path ''/music/x/c.mp3'')"
    by (simp add: lrc_c demo_exists demo_no_tags_def)
  have f: "get_song_details demo_no_tags ''/music/x/c.mp3'' = Inl TypeError"
    by (simp add: get_song_details_def demo_no_tags_def no_tags_def)
  have "process_file demo_no_duration ''/music/x/c.mp3'' [''/music/done'']
      = Inr (Error ''/music/x/c.mp3'' TypeError, [Extract ''/music/x/c.mp3''])"
    using a b c by (simp add: process_file_def del: is_in_cache.simps)
  moreover have "process_file demo_no_tags ''/music/x/c.mp3'' [''/music/done'']
      = Inr (Error ''/music/x/c.mp3'' TypeError, [Extract ''/music/x/c.mp3''])"
    using d e f by (simp add: process_file_def del: is_in_cache.simps)
  ultimately show ?thesis
    by (simp add: demo_no_duration_def no_duration_tags_def demo_no_tags_def no_tags_def)
qed

text \<open>
  Claim C8, as amended. No failure of the existing-output check, the extraction, the lookup
  or the write leaves \<open>process_file\<close>: whenever the containment check returns,
  \<open>process_file\<close> returns an outcome. A run whose cache file loads, whose containment
  checks all return and whose cache file can be written at the end completes. An absent
  cache file loads as the empty cache. A cache file that is present and cannot be read is
  not recovered from, and neither is a cache file that cannot be written at the end of the
  run: the exception of \<open>load_cache\<close> or of \<open>save_cache\<close> ends the run.
\<close>

theorem C8_only_uncaught_failures_abort:
  "(\<forall>b. is_in_cache w p cache = Inr b \<longrightarrow> (\<exists>res evs. process_file w p cache = Inr (res, evs)))
   \<and> load_cache Absent = Inr []
   \<and> (\<forall>e. cache_file w = Unreadable e \<longrightarrow> main_async w = Inl e)
   \<and> (\<forall>loaded. load_cache (cache_file w) = Inr loaded
        \<longrightarrow> (\<forall>f \<in> set (collect_audio_files (walk w)). \<exists>b. is_in_cache w f loaded = Inr b)
        \<longrightarrow> cache_save_error w = None
        \<longrightarrow> (\<exists>r. main_async w = Inr r))
   \<and> (\<forall>loaded e. load_cache (cache_file w) = Inr loaded
        \<longrightarrow> (\<forall>f \<in> set (collect_audio_files (walk w)). \<exists>b. is_in_cache w f loaded = Inr b)
        \<longrightarrow> cache_save_error w = Some e
        \<longrightarrow> main_async w = Inl e)"
proof (intro conjI allI impI)
  fix b assume "is_in_cache w p cache = Inr b"
  then show "\<exists>res evs. process_file w p cache = Inr (res, evs)"
    by (rule process_file_returns)
next
  show "load_cache Absent = Inr []"
    by (simp add: load_cache_def)
next
  fix e assume "cache_file w = Unreadable e"
  then show "main_async w = Inl e"
    by (simp add: main_async_def load_cache_def)
next
  fix loaded
  assume l: "load_cache (cache_file w) = Inr loaded"
    and c: "\<forall>f \<in> set (collect_audio_files (walk w)). \<exists>b. is_in_cache w f loaded = Inr b"
    and s: "cache_save_error w = None"
  from c have "\<And>f. f \<in> set (collect_audio_files (walk w)) \<Longrightarrow> \<exists>b. is_in_cache w f loaded = Inr b"
    by blast
  with l show "\<exists>r. main_async w = Inr r"
    using s by (rule main_async_completes)
next
  fix loaded e
  assume l: "load_cache (cache_file w) = Inr loaded"
    and c: "\<forall>f \<in> set (collect_audio_files (walk w)). \<exists>b. is_in_cache w f loaded = Inr b"
    and s: "cache_save_error w = Some e"
  from c have "\<And>f. f \<in> set (collect_audio_files (walk w)) \<Longrightarrow> \<exists>b. is_in_cache w f loaded = Inr b"
    by blast
  with l show "main_async w = Inl e"
    using s by (rule main_async_save_fails)
qed

theorem C8_only_uncaught_failures_abort_witness:
  "is_in_cache demo ''/music/x/c.mp3'' [''/music/done''] = Inr False
   \<and> (\<exists>res evs. process_file demo ''/music/x/c.mp3'' [''/music/done''] = Inr (res, evs))
   \<and> cache_file demo_unreadable = Unreadable OSError
   \<and> main_async demo_unreadable = Inl OSError
   \<and> load_cache (cache_file demo) = Inr [''/music/done'']
   \<and> cache_save_error demo = None
   \<and> (\<exists>r. main_async demo = Inr r)
   \<and> load_cache (cache_file demo_unwritable) = Inr [''/music/done'']
   \<and> cache_save_error demo_unwritable = Some OSError
   \<and> main_async demo_unwritable = Inl OSError"
proof -
  have u: "cache_file demo_unreadable = Unreadable OSError"
    by (simp add: demo_unreadable_def)
  have all: "\<forall>f \<in> set (collect_audio_files (walk demo)).
      \<exists>b. is_in_cache demo f [''/music/done''] = Inr b"
    by (simp add: demo_files demo_not_cached del: is_in_cache.simps)
       (simp add: demo_def commonpath_def, blast)
  have wl: "load_cache (cache_file demo_unwritable) = Inr [''/music/done'']"
    using demo_load by (simp add: demo_unwritable_def)
  have ws: "cache_save_error demo_unwritable = Some OSError"
    by (simp add: demo_unwritable_def)
  have wall: "\<forall>f \<in> set (collect_audio_files (walk demo_unwritable)).
      \<exists>b. is_in_cache demo_unwritable f [''/music/done''] = Inr b"
  proof
    fix f assume "f \<in> set (collect_audio_files (walk demo_unwritable))"
    then have "f \<in> set (collect_audio_files (walk demo))"
      by (simp add: demo_unwritable_def)
    with all obtain b where "is_in_cache demo f [''/music/done''] = Inr b"
      by blast
    then have "is_in_cache demo_unwritable f [''/music/done''] = Inr b"
      using is_in_cache_isdir [of demo_unwritable demo f "[''/music/done'']"]
      by (simp add: demo_unwritable_def del: is_in_cache.simps)
    then show "\<exists>b. is_in_cache demo_unwritable f [''/music/done''] = Inr b" ..
  qed
  show ?thesis
    using C8_only_uncaught_failures_abort [of demo "''/music/x/c.mp3''" "[''/music/done'']"]
      C8_only_uncaught_failures_abort [of demo_unreadable "''/music/x/c.mp3''" "[''/music/done'']"]
      C8_only_uncaught_failures_abort [of demo_unwritable "''/music/x/c.mp3''" "[''/music/done'']"]
      u all demo_load demo_not_cached(2) demo_save wl ws wall
    by blast
qed

text \<open>
  Claim C8 as stated fails in three ways. A cache entry that is a directory written as a
  relative path makes \<open>commonpath\<close> raise for an absolute file path, and the exception
  leaves \<open>process_file\<close> and the run; a cache file that cannot be read makes the run end
  with the exception of \<open>load_cache\<close> instead of continuing with an empty cache; a cache
  file that cannot be written makes the run end with the exception of \<open>save_cache\<close>.
\<close>

theorem C8_counterexample:
  "isdir demo ''.''
   \<and> process_file demo ''/music/x/c.mp3'' [''.''] = Inl ValueError
   \<and> main_async demo_unreadable = Inl OSError
   \<and> main_async demo_unwritable = Inl OSError"
proof -
  have a: "isdir demo ''.'' \<and> process_file demo ''/music/x/c.mp3'' [''.''] = Inl ValueError"
    by (simp add: process_file_def) (simp add: demo_def commonpath_def)
  have b: "main_async demo_unreadable = Inl OSError"
    by (simp add: main_async_def load_cache_def demo_unreadable_def)
  have l: "load_cache (cache_file demo_unwritable) = Inr [''/music/done'']"
    using demo_load by (simp add: demo_unwritable_def)
  have s: "cache_save_error demo_unwritable = Some OSError"
    by (simp add: demo_unwritable_def)
  have "\<exists>b. is_in_cache demo_unwritable f [''/music/done''] = Inr b"
    if "f \<in> set (collect_audio_files (walk demo_unwritable))" for f
  proof -
    from that have "f \<in> set (collect_audio_files (walk demo))"
      by (simp add: demo_unwritable_def)
    then have "\<exists>b. is_in_cache demo f [''/music/done''] = Inr b"
      by (simp add: demo_files) (auto simp: demo_def commonpath_def)
    then show ?thesis
      using is_in_cache_isdir [of demo_unwritable demo f "[''/music/done'']"]
      by (simp add: demo_unwritable_def del: is_in_cache.simps)
  qed
  with l have "main_async demo_unwritable = Inl OSError"
    using s by (rule main_async_save_fails)
  with a b show ?thesis
    by simp
qed

text \<open>
  Claim C10. For a 200 response whose \<open>syncedLyrics\<close> value is falsy (absent, null or
  empty), \<open>get_lyrics\<close> returns the \<open>plainLyrics\<close> value when that one is truthy and
  \<open>None\<close> otherwise; when both are falsy, a file that reaches the lookup is processed to
  \<open>Missing\<close>.
\<close>

theorem C10_falsy_synced_uses_plain:
  assumes "client_get w (ar, ti, al, d) = Inr r"
    and "status_code r = 200"
    and "json_body r = Inr data"
    and "dict_get data ''syncedLyrics'' = Inr synced"
    and "dict_get data ''plainLyrics'' = Inr plain"
    and "\<not> truthy synced"
    and "is_in_cache w p cache = Inr False"
    and "\<not> exists w (lrc_path p)"
    and "get_song_details w p = Inr (al, ti, ar, d)"
    and "\<not> falsy ar" and "\<not> falsy ti"
  shows "get_lyrics w ar ti al d = (if truthy plain then Some plain else None)
    \<and> (\<not> truthy plain
        \<longrightarrow> process_file w p cache = Inr (Missing p, [Extract p, Lookup (ar, ti, al, d)]))"
proof -
  have gl: "get_lyrics w ar ti al d = (if truthy plain then Some plain else None)"
    using assms(1-6) by (simp add: get_lyrics_def)
  show ?thesis
  proof (intro conjI impI)
    show "get_lyrics w ar ti al d = (if truthy plain then Some plain else None)"
      by (rule gl)
  next
    assume "\<not> truthy plain"
    with gl have "get_lyrics w ar ti al d = None"
      by simp
    with assms(7-11) show "process_file w p cache = Inr (Missing p, [Extract p, Lookup (ar, ti, al, d)])"
      by (rule process_file_lookup_none)
  qed
qed

theorem C10_falsy_synced_uses_plain_witness:
  "client_get (demo\<lparr>client_get := empty_lyrics\<rparr>)
       (Some ''The Kinks'', Some ''Waterloo Sunset'', Some ''Something Else'', 211)
     = Inr \<lparr>status_code = 200,
            json_body = Inr (JObj [(''syncedLyrics'', JStr []), (''plainLyrics'', JNull)])\<rparr>
   \<and> dict_get (JObj [(''syncedLyrics'', JStr []), (''plainLyrics'', JNull)]) ''syncedLyrics''
       = Inr (JStr [])
   \<and> dict_get (JObj [(''syncedLyrics'', JStr []), (''plainLyrics'', JNull)]) ''plainLyrics''
       = Inr JNull
   \<and> \<not> truthy (JStr []) \<and> \<not> truthy JNull
   \<and> get_lyrics (demo\<lparr>client_get := empty_lyrics\<rparr>)
         (Some ''The Kinks'') (Some ''Waterloo Sunset'') (Some ''Something Else'') 211 = None
   \<and> process_file (demo\<lparr>client_get := empty_lyrics\<rparr>) ''/music/x/c.mp3'' [''/music/done'']
       = Inr (Missing ''/music/x/c.mp3'',
              [Extract ''/music/x/c.mp3'',
               Lookup (Some ''The Kinks'', Some ''Waterloo Sunset'', Some ''Something Else'', 211)])"
proof -
  let ?w = "demo\<lparr>client_get := empty_lyrics\<rparr>"
  let ?r = "\<lparr>status_code = 200,
            json_body = Inr (JObj [(''syncedLyrics'', JStr []), (''plainLyrics'', JNull)])\<rparr>"
  have a: "client_get ?w (Some ''The Kinks'', Some ''Waterloo Sunset'', Some ''Something Else'', 211)
      = Inr ?r"
    by (simp add: empty_lyrics_def)
  have b: "status_code ?r = 200"
    by simp
  have c: "json_body ?r = Inr (JObj [(''syncedLyrics'', JStr []), (''plainLyrics'', JNull)])"
    by simp
  have d: "dict_get (JObj [(''syncedLyrics'', JStr []), (''plainLyrics'', JNull)]) ''syncedLyrics''
      = Inr (JStr [])"
    by simp
  have e: "dict_get (JObj [(''syncedLyrics'', JStr []), (''plainLyrics'', JNull)]) ''plainLyrics''
      = Inr JNull"
    by simp
  have f: "\<not> truthy (JStr [])"
    by simp
  have g: "is_in_cache ?w ''/music/x/c.mp3'' [''/music/done''] = Inr False"
    using demo_not_cached(2) is_in_cache_isdir [of ?w demo] by (simp del: is_in_cache.simps)
  have h: "\<not> exists ?w (lrc_path ''/music/x/c.mp3'')"
    by (simp add: lrc_c demo_exists)
  have i: "get_song_details ?w ''/music/x/c.mp3''
     = Inr (Some ''Something Else'', Some ''Waterloo Sunset'', Some ''The Kinks'', 211)"
    using demo_details(1) get_song_details_tags [of ?w demo] by simp
  have j: "\<not> falsy (Some ''The Kinks'')" and k: "\<not> falsy (Some ''Waterloo Sunset'')"
    by simp_all
  show ?thesis
    using a d e C10_falsy_synced_uses_plain [OF a b c d e f g h i j k] by simp
qed

section \<open>Properties of the concurrency limit\<close>

text \<open>
  Claim C9. In every state that the tasks of a run can reach, at most
  \<open>MAX_CONCURRENCY\<close> = 20 tasks are inside \<open>get_lyrics\<close>, and the tasks inside it
  together with the free slots of the semaphore make up the capacity. A task at its cache
  check and existing-output check, in the tag extraction or at the write can always take
  its step, whatever the value of the semaphore, and leaves the semaphore as it is; a
  task waiting at \<open>async with sem\<close> can enter exactly when fewer than 20 lookups are in
  flight.
\<close>

theorem C9_semaphore_bounds_lookups:
  assumes "run w cache files (start files) schedule = Some s"
  shows "in_flight s \<le> MAX_CONCURRENCY
    \<and> MAX_CONCURRENCY = 20
    \<and> in_flight s + sem s = MAX_CONCURRENCY
    \<and> (\<forall>i<length files. pcs s ! i = Checking \<or> pcs s ! i = Extracting \<or> pcs s ! i = Writing
          \<longrightarrow> (\<exists>s'. step w cache files s i = Some s' \<and> sem s' = sem s))
    \<and> (\<forall>i<length files. pcs s ! i = Waiting
          \<longrightarrow> (step w cache files s i \<noteq> None) = (in_flight s < MAX_CONCURRENCY))"
proof -
  have bal: "balanced files s"
    using start_balanced assms by (rule run_balanced)
  then have len: "length (pcs s) = length files"
    and sum: "in_flight s + sem s = MAX_CONCURRENCY"
    by (simp_all add: balanced_def)
  have "\<exists>s'. step w cache files s i = Some s' \<and> sem s' = sem s"
    if "i < length files"
      and "pcs s ! i = Checking \<or> pcs s ! i = Extracting \<or> pcs s ! i = Writing" for i
    using that(1) len that(2) by (rule step_ungated)
  moreover have "(step w cache files s i \<noteq> None) = (in_flight s < MAX_CONCURRENCY)"
    if "i < length files" and "pcs s ! i = Waiting" for i
    using step_acquire [OF that(1) len that(2), of w cache] sum by auto
  ultimately show ?thesis
    using sum by (simp add: MAX_CONCURRENCY_def)
qed

theorem C9_semaphore_bounds_lookups_witness:
  "run crowd_world [] crowd (start crowd) crowd_schedule = Some crowd_state
   \<and> in_flight crowd_state = 20
   \<and> sem crowd_state = 0
   \<and> (20::nat) < length crowd \<and> pcs crowd_state ! 20 = Waiting
   \<and> step crowd_world [] crowd crowd_state 20 = None
   \<and> (21::nat) < length crowd \<and> pcs crowd_state ! 21 = Checking
   \<and> (\<exists>s'. step crowd_world [] crowd crowd_state 21 = Some s' \<and> sem s' = sem crowd_state)"
proof -
  have len: "length crowd = 22"
    by (simp add: crowd_def)
  show ?thesis
    using C9_semaphore_bounds_lookups [OF crowd_run] crowd_run crowd_state_facts len
    by simp
qed


end
